theory Spec2Isabelle
  imports Complex_Main "HOL-Library.Sublist"
begin

section \<open>Strings of code points\<close>

text \<open>
  The indexing code is Python: a \<^verbatim>\<open>str\<close> is a sequence of Unicode code points and
  \<^verbatim>\<open>len\<close> counts code points.  The sentence terminators of the chunker lie outside
  ASCII, so a string is modelled as a list of code points.
\<close>

type_synonym uchar = nat
type_synonym ustring = "nat list"

definition ustr :: "string \<Rightarrow> ustring" where
  "ustr s = map of_char s"

definition NL :: uchar where "NL = 10"
definition HASH :: uchar where "HASH = 35"

text \<open>Whitespace as \<^verbatim>\<open>str.strip()\<close> and the pattern \<^verbatim>\<open>\s\<close> see it.\<close>

definition is_space :: "uchar \<Rightarrow> bool" where
  "is_space c \<longleftrightarrow>
     (9 \<le> c \<and> c \<le> 13) \<or> (28 \<le> c \<and> c \<le> 32) \<or> c = 133 \<or> c = 160 \<or> c = 5760 \<or>
     (8192 \<le> c \<and> c \<le> 8202) \<or> c = 8232 \<or> c = 8233 \<or> c = 8239 \<or> c = 8287 \<or> c = 12288"

definition strip :: "ustring \<Rightarrow> ustring" where
  "strip s = rev (dropWhile is_space (rev (dropWhile is_space s)))"

text \<open>The characters that survive every whitespace normalisation.\<close>

definition visible :: "ustring \<Rightarrow> ustring" where
  "visible s = filter (\<lambda>c. \<not> is_space c) s"

subsection \<open>\<^verbatim>\<open>re.split(r'\n\s*\n', content)\<close>\<close>

text \<open>
  A match starts at a newline whose following whitespace run holds another newline, and
  (the star is greedy) ends at the last newline of that run.  The pieces between the
  matches are returned, also the empty ones.
\<close>

function re_split_blank :: "ustring \<Rightarrow> ustring \<Rightarrow> ustring list" where
  "re_split_blank acc [] = [rev acc]"
| "re_split_blank acc (c # cs) =
     (let ws = takeWhile is_space cs in
      if c = NL \<and> NL \<in> set ws
      then rev acc # re_split_blank [] (rev (takeWhile (\<lambda>x. x \<noteq> NL) (rev ws)) @ dropWhile is_space cs)
      else re_split_blank (c # acc) cs)"
  by pat_completeness auto
termination
proof (relation "measure (\<lambda>(acc, s). length s)")
  show "wf (measure (\<lambda>(acc, s). length s))" by simp
next
  fix acc :: ustring and c :: uchar and cs ws :: ustring
  assume ws: "ws = takeWhile is_space cs"
  have "length (takeWhile (\<lambda>x. x \<noteq> NL) (rev ws)) \<le> length ws"
    using length_takeWhile_le [of "\<lambda>x. x \<noteq> NL" "rev ws"] by simp
  moreover have "length ws + length (dropWhile is_space cs) = length cs"
    unfolding ws by (metis length_append takeWhile_dropWhile_id)
  ultimately show "((([]::ustring), rev (takeWhile (\<lambda>x. x \<noteq> NL) (rev ws)) @ dropWhile is_space cs), (acc, c # cs))
        \<in> measure (\<lambda>(acc, s). length s)"
    by simp
next
  fix acc :: ustring and c :: uchar and cs ws :: ustring
  show "((c # acc, cs), (acc, c # cs)) \<in> measure (\<lambda>(acc, s). length s)" by simp
qed

subsection \<open>The sentence split \<^verbatim>\<open>re.split(r'([...\n])', para)\<close> and the re-joining of the pieces\<close>

text \<open>
  The separators are the ideographic full stop U+3002, the fullwidth exclamation mark
  U+FF01, the fullwidth question mark U+FF1F and the newline.
\<close>

definition is_sentence_end :: "uchar \<Rightarrow> bool" where
  "is_sentence_end c \<longleftrightarrow> c = 12290 \<or> c = 65281 \<or> c = 65311 \<or> c = NL"

text \<open>With a capture group the separators are returned too: text, separator, text, ...\<close>

fun re_split_delim :: "ustring \<Rightarrow> ustring \<Rightarrow> ustring list" where
  "re_split_delim acc [] = [rev acc]"
| "re_split_delim acc (c # cs) =
     (if is_sentence_end c then rev acc # [c] # re_split_delim [] cs
      else re_split_delim (c # acc) cs)"

text \<open>The slices \<^verbatim>\<open>xs[0::2]\<close> and \<^verbatim>\<open>xs[1::2]\<close>.\<close>

fun evens :: "'a list \<Rightarrow> 'a list" and odds :: "'a list \<Rightarrow> 'a list" where
  "evens [] = []"
| "evens (x # xs) = x # odds xs"
| "odds [] = []"
| "odds (x # xs) = evens xs"

definition split_sentences :: "ustring \<Rightarrow> ustring list" where
  "split_sentences para =
     (let sentences = re_split_delim [] para
      in map (\<lambda>(a, b). a @ b) (zip (evens sentences) (odds sentences @ [[]])))"

section \<open>The segmentation primitive \<^verbatim>\<open>_smart_split\<close>\<close>

record split_state =
  chunks :: "ustring list"
  current_chunk :: ustring
  current_size :: int

definition init_split :: split_state where
  "init_split = \<lparr>chunks = [], current_chunk = [], current_size = 0\<rparr>"

text \<open>\<^verbatim>\<open>current_chunk[-overlap:] if overlap > 0 else ""\<close>\<close>

definition overlap_text :: "int \<Rightarrow> ustring \<Rightarrow> ustring" where
  "overlap_text overlap cur = (if overlap > 0 then drop (length cur - nat overlap) cur else [])"

definition emit_with :: "int \<Rightarrow> split_state \<Rightarrow> ustring \<Rightarrow> split_state" where
  "emit_with overlap st unit =
     \<lparr>chunks = chunks st @ [strip (current_chunk st)],
      current_chunk = overlap_text overlap (current_chunk st) @ unit,
      current_size = int (length (overlap_text overlap (current_chunk st) @ unit))\<rparr>"

definition add_sentence :: "int \<Rightarrow> int \<Rightarrow> split_state \<Rightarrow> ustring \<Rightarrow> split_state" where
  "add_sentence chunk_size overlap st sentence =
     (if current_size st + int (length sentence) > chunk_size \<and> current_chunk st \<noteq> []
      then emit_with overlap st sentence
      else st\<lparr>current_chunk := current_chunk st @ sentence,
              current_size := current_size st + int (length sentence)\<rparr>)"

definition add_short_para :: "int \<Rightarrow> int \<Rightarrow> split_state \<Rightarrow> ustring \<Rightarrow> split_state" where
  "add_short_para chunk_size overlap st para =
     (if current_size st + int (length para) + 2 > chunk_size \<and> current_chunk st \<noteq> []
      then emit_with overlap st para
      else (let cur = (if current_chunk st \<noteq> [] then current_chunk st @ [NL, NL] @ para else para)
            in st\<lparr>current_chunk := cur, current_size := int (length cur)\<rparr>))"

definition add_para :: "int \<Rightarrow> int \<Rightarrow> split_state \<Rightarrow> ustring \<Rightarrow> split_state" where
  "add_para chunk_size overlap st para0 =
     (let para = strip para0 in
      if para = [] then st
      else if int (length para) > chunk_size
      then foldl (add_sentence chunk_size overlap) st (split_sentences para)
      else add_short_para chunk_size overlap st para)"

definition run_paragraphs :: "ustring \<Rightarrow> int \<Rightarrow> int \<Rightarrow> split_state" where
  "run_paragraphs content chunk_size overlap =
     foldl (add_para chunk_size overlap) init_split (re_split_blank [] content)"

definition flush :: "split_state \<Rightarrow> ustring list" where
  "flush st = (if strip (current_chunk st) \<noteq> [] then chunks st @ [strip (current_chunk st)] else chunks st)"

definition smart_split :: "ustring \<Rightarrow> int \<Rightarrow> int \<Rightarrow> ustring list" where
  "smart_split content chunk_size overlap = flush (run_paragraphs content chunk_size overlap)"

text \<open>A minimum chunk size would hold of every chunk but the last one.\<close>

definition min_size_respected :: "int \<Rightarrow> ustring list \<Rightarrow> bool" where
  "min_size_respected min_chunk_size cks \<longleftrightarrow> list_all (\<lambda>c. min_chunk_size \<le> int (length c)) (butlast cks)"

section \<open>The document parser\<close>

subsection \<open>Nodes\<close>

text \<open>
  \<^verbatim>\<open>DocNode\<close> is a dataclass whose \<^verbatim>\<open>children\<close> field holds further \<^verbatim>\<open>DocNode\<close> objects.
  The value a caller receives is a tree; while parsing, the nodes are objects that the
  ancestor stack and the parents' child lists both refer to and that are updated in place.
  The parser is therefore modelled on a store of nodes addressed by their position, and
  the tree is read off the store at the end.  \<^verbatim>\<open>uuid4()\<close> is modelled by that position.
\<close>

record node_fields =
  node_id :: nat
  level :: nat
  index :: nat
  title :: ustring
  content :: ustring
  char_start :: nat
  char_end :: nat

record heap_node = node_fields +
  child_ids :: "nat list"

datatype DocNode = DocNode (info: node_fields) (children: "DocNode list")

record parse_state =
  nodes :: "heap_node list"
  stack :: "nat list"

subsection \<open>Heading patterns\<close>

text \<open>
  \<^verbatim>\<open>re.match(r"^#{k}\s+(.+)$", line)\<close> on a line without newline: \<open>k\<close> hashes, at least
  one whitespace character, at least one further character.  The greedy \<^verbatim>\<open>\s+\<close> takes the
  whole whitespace run, and gives its last character back when nothing follows the run.
  The result is \<^verbatim>\<open>match.group(1)\<close>.
\<close>

definition re_match_heading :: "nat \<Rightarrow> ustring \<Rightarrow> ustring option" where
  "re_match_heading k line =
     (let rest = drop k line; ws = takeWhile is_space rest in
      if take k line = replicate k HASH \<and> ws \<noteq> [] \<and> (length ws < length rest \<or> 2 \<le> length ws)
      then Some (if length ws = length rest then [last rest] else drop (length ws) rest)
      else None)"

definition HEADING_PATTERNS :: "nat list" where
  "HEADING_PATTERNS = [1, 2, 3, 4]"

text \<open>The loop over the patterns stops at the first one that matches.\<close>

fun first_heading :: "nat list \<Rightarrow> ustring \<Rightarrow> (ustring \<times> nat) option" where
  "first_heading [] line = None"
| "first_heading (k # ks) line =
     (case re_match_heading k line of
        Some g \<Rightarrow> Some (strip g, k)
      | None \<Rightarrow> first_heading ks line)"

subsection \<open>\<^verbatim>\<open>parse_markdown\<close>\<close>

text \<open>\<^verbatim>\<open>content.split("\n")\<close>\<close>

fun split_lines :: "ustring \<Rightarrow> ustring \<Rightarrow> ustring list" where
  "split_lines acc [] = [rev acc]"
| "split_lines acc (c # cs) =
     (if c = NL then rev acc # split_lines [] cs else split_lines (c # acc) cs)"

text \<open>The slice \<^verbatim>\<open>s[a:b]\<close> for offsets that are not negative.\<close>

definition slice :: "ustring \<Rightarrow> nat \<Rightarrow> nat \<Rightarrow> ustring" where
  "slice s a b = take (b - a) (drop a s)"

text \<open>\<^verbatim>\<open>sum(len(l) + 1 for l in lines[:i])\<close>\<close>

definition char_pos :: "ustring list \<Rightarrow> nat \<Rightarrow> nat" where
  "char_pos lines i = sum_list (map (\<lambda>l. length l + 1) (take i lines))"

definition default_title :: ustring where
  "default_title = [25991, 26723, 26681, 33410, 28857]"

definition root_node :: "ustring \<Rightarrow> ustring \<Rightarrow> heap_node" where
  "root_node doc filename =
     \<lparr>node_id = 0, level = 0, index = 0,
      title = (if filename \<noteq> [] then filename else default_title),
      content = [], char_start = 0, char_end = length doc, child_ids = []\<rparr>"

text \<open>
  Closing the node on top of the stack at offset \<open>cp\<close>, as is done before a new node
  is created and after the loop:
  \<^verbatim>\<open>if len(stack) > 1: stack[-1].char_end = cp; stack[-1].content = content[stack[-1].char_start:cp]\<close>
\<close>

definition close_top :: "ustring \<Rightarrow> parse_state \<Rightarrow> nat \<Rightarrow> heap_node list" where
  "close_top doc st cp =
     (if length (stack st) > 1
      then (let top = last (stack st) in
            (nodes st)[top := (nodes st ! top)
               \<lparr>content := slice doc (char_start (nodes st ! top)) cp, char_end := cp\<rparr>])
      else nodes st)"

text \<open>
  The body of the loop for a line that matches a heading pattern of depth \<open>lvl\<close>:
  close the node on top of the stack, create the new node, pop while the stack is longer
  than \<open>lvl\<close>, append the new node to the children of the new top and push it.
\<close>

definition open_heading ::
  "ustring \<Rightarrow> ustring list \<Rightarrow> parse_state \<Rightarrow> nat \<Rightarrow> ustring \<Rightarrow> ustring \<Rightarrow> nat \<Rightarrow> parse_state" where
  "open_heading doc lines st i line ttl lvl =
     (let cp = char_pos lines i;
          ns1 = close_top doc st cp;
          new_id = length ns1;
          new_node = \<lparr>node_id = new_id, level = lvl,
                      index = (if lvl < length (stack st)
                               then length (child_ids (ns1 ! (stack st ! lvl))) else 0),
                      title = ttl, content = [],
                      char_start = cp + length line + 1, char_end = length doc,
                      child_ids = []\<rparr>;
          stk = take lvl (stack st);
          parent = last stk;
          ns2 = (ns1 @ [new_node])[parent := (ns1 ! parent)\<lparr>child_ids := child_ids (ns1 ! parent) @ [new_id]\<rparr>]
      in \<lparr>nodes = ns2, stack = stk @ [new_id]\<rparr>)"

definition parse_line :: "ustring \<Rightarrow> ustring list \<Rightarrow> parse_state \<Rightarrow> nat \<times> ustring \<Rightarrow> parse_state" where
  "parse_line doc lines st il =
     (case first_heading HEADING_PATTERNS (snd il) of
        Some (ttl, lvl) \<Rightarrow> open_heading doc lines st (fst il) (snd il) ttl lvl
      | None \<Rightarrow> st)"

text \<open>After the loop the node on top of the stack is closed at the end of the text.\<close>

definition close_last :: "ustring \<Rightarrow> parse_state \<Rightarrow> parse_state" where
  "close_last doc st = st\<lparr>nodes := close_top doc st (length doc)\<rparr>"

definition parse_store :: "ustring \<Rightarrow> ustring \<Rightarrow> parse_state" where
  "parse_store doc filename =
     (let lines = split_lines [] doc;
          st0 = \<lparr>nodes = [root_node doc filename], stack = [0]\<rparr>
      in close_last doc (foldl (parse_line doc lines) st0 (List.enumerate 0 lines)))"

text \<open>
  The tree below node \<open>i\<close> of a store.  A child is created after its parent, so its
  position is larger; the recursion follows such references only.
\<close>

function to_tree :: "heap_node list \<Rightarrow> nat \<Rightarrow> DocNode" where
  "to_tree ns i =
     DocNode (node_fields.truncate (ns ! i))
       (map (to_tree ns) (filter (\<lambda>c. i < c \<and> c < length ns) (child_ids (ns ! i))))"
  by pat_completeness auto
termination
  by (relation "measure (\<lambda>(ns, i). length ns - i)") auto

declare to_tree.simps [simp del]

definition parse_markdown :: "ustring \<Rightarrow> ustring \<Rightarrow> DocNode" where
  "parse_markdown doc filename = to_tree (nodes (parse_store doc filename)) 0"

subsection \<open>\<^verbatim>\<open>get_all_chunks\<close>\<close>

record chunk =
  chunk_content :: ustring
  chunk_node_id :: nat
  chunk_node_path :: ustring
  chunk_level :: nat
  chunk_char_start :: nat
  chunk_char_end :: nat

text \<open>\<^verbatim>\<open>" > ".join(path)\<close>\<close>

fun join_path :: "ustring list \<Rightarrow> ustring" where
  "join_path [] = []"
| "join_path [t] = t"
| "join_path (t # ts) = t @ [32, 62, 32] @ join_path ts"

definition node_chunk :: "node_fields \<Rightarrow> ustring list \<Rightarrow> ustring \<Rightarrow> chunk" where
  "node_chunk node current_path text =
     \<lparr>chunk_content = text, chunk_node_id = node_id node,
      chunk_node_path = join_path current_path, chunk_level = level node,
      chunk_char_start = char_start node, chunk_char_end = char_end node\<rparr>"

fun traverse :: "int \<Rightarrow> int \<Rightarrow> DocNode \<Rightarrow> ustring list \<Rightarrow> chunk list" where
  "traverse chunk_size overlap (DocNode node kids) parent_path =
     (let current_path = parent_path @ [title node] in
      (if content node \<noteq> [] \<and> strip (content node) \<noteq> []
       then map (node_chunk node current_path) (smart_split (content node) chunk_size overlap)
       else [])
      @ concat (map (\<lambda>child. traverse chunk_size overlap child current_path) kids))"

definition get_all_chunks :: "DocNode \<Rightarrow> int \<Rightarrow> int \<Rightarrow> chunk list" where
  "get_all_chunks tree chunk_size overlap = traverse chunk_size overlap tree []"

text \<open>The nodes of a tree, in the order the traversal visits them, and its subtrees.\<close>

fun nodes_of :: "DocNode \<Rightarrow> node_fields list" where
  "nodes_of (DocNode node kids) = node # concat (map nodes_of kids)"

fun subtrees :: "DocNode \<Rightarrow> DocNode list" where
  "subtrees (DocNode node kids) = DocNode node kids # concat (map subtrees kids)"

text \<open>
  The partition property of a node with children: the char ranges of its children,
  taken together, are exactly its own char range.
\<close>

definition children_cover :: "DocNode \<Rightarrow> bool" where
  "children_cover t \<longleftrightarrow>
     children t = [] \<or>
     (\<Union>c\<in>set (children t). {char_start (info c)..<char_end (info c)})
       = {char_start (info t)..<char_end (info t)}"


section \<open>Notions used in the statements and invariants used in the proofs\<close>

text \<open>The size counter of the chunker is the length of its buffer.\<close>

definition size_ok :: "split_state \<Rightarrow> bool" where
  "size_ok st \<longleftrightarrow> current_size st = int (length (current_chunk st))"

text \<open>
  The paragraphs that the chunker processes: the pieces between the blank-line separators,
  stripped, without the empty ones.
\<close>

definition paragraphs :: "ustring \<Rightarrow> ustring list" where
  "paragraphs doc = filter (\<lambda>p. p \<noteq> []) (map strip (re_split_blank [] doc))"

text \<open>Paragraphs put together, each after its separator.\<close>

definition join_paragraphs :: "ustring list \<Rightarrow> ustring list \<Rightarrow> ustring" where
  "join_paragraphs seps paras = concat (map (\<lambda>(s, p). s @ p) (zip seps paras))"

text \<open>The pieces of a split put together again, with the matched gaps between them.\<close>

fun rejoin :: "ustring list \<Rightarrow> ustring list \<Rightarrow> ustring" where
  "rejoin (p # ps) (g # gs) = p @ g @ rejoin ps gs"
| "rejoin ps [] = concat ps"
| "rejoin [] gs = []"

text \<open>
  The buffers behind the emitted chunks, from the texts added to them: every buffer starts
  with the overlap text taken from its predecessor \<open>prev\<close> (nothing for the first one)
  and goes on with the text added afterwards, its body.
\<close>

fun buffers :: "int \<Rightarrow> ustring \<Rightarrow> ustring list \<Rightarrow> ustring list" where
  "buffers ov prev [] = []"
| "buffers ov prev (b # bs) = (overlap_text ov prev @ b) # buffers ov (overlap_text ov prev @ b) bs"

text \<open>
  A state of the chunker with the bodies of the emitted buffers and the body of the
  current one.
\<close>

definition buffered :: "int \<Rightarrow> split_state \<Rightarrow> ustring list \<Rightarrow> ustring \<Rightarrow> bool" where
  "buffered ov st bodies body \<longleftrightarrow>
     chunks st = map strip (buffers ov [] bodies) \<and>
     current_chunk st = overlap_text ov (last ([] # buffers ov [] bodies)) @ body"

text \<open>A chunk that is emitted already, or is the buffer and will be emitted by the next unit.\<close>

definition pending :: "int \<Rightarrow> split_state \<Rightarrow> ustring \<Rightarrow> bool" where
  "pending cs st c \<longleftrightarrow>
     c \<in> set (chunks st) \<or> (strip (current_chunk st) = c \<and> cs < current_size st \<and> current_chunk st \<noteq> [])"

text \<open>
  The parser's store while the text is read up to offset \<open>p\<close>: the node on top of the
  stack is the newest node, every older node is closed, and the ranges of the nodes other
  than the root follow each other in the order of creation.
\<close>

definition store_shape :: "parse_state \<Rightarrow> bool" where
  "store_shape st \<longleftrightarrow>
     nodes st \<noteq> [] \<and> stack st \<noteq> [] \<and>
     (\<forall>s\<in>set (stack st). s < length (nodes st)) \<and>
     last (stack st) = length (nodes st) - 1 \<and>
     (1 < length (stack st) \<longleftrightarrow> 1 < length (nodes st)) \<and>
     (\<forall>i. 0 < i \<and> Suc i < length (nodes st) \<longrightarrow>
        char_start (nodes st ! i) \<le> char_end (nodes st ! i) \<and>
        char_end (nodes st ! i) \<le> char_start (nodes st ! Suc i)) \<and>
     (\<forall>i<length (nodes st). sorted_wrt (<) (child_ids (nodes st ! i)) \<and>
        (\<forall>c\<in>set (child_ids (nodes st ! i)). i < c \<and> c < length (nodes st)))"

definition store_inv :: "parse_state \<Rightarrow> nat \<Rightarrow> bool" where
  "store_inv st p \<longleftrightarrow>
     store_shape st \<and> (1 < length (nodes st) \<longrightarrow> char_start (last (nodes st)) \<le> p)"


section \<open>The store\<close>

text \<open>
  The tables of the schema, as lists of rows in insertion order.  A database-generated
  or \<^verbatim>\<open>uuid4()\<close> identifier is a number drawn from a counter that is part of the store.
  Similarity scores are floats in the program and real numbers here.
\<close>

type_synonym uuid = nat
type_synonym vec = "real list"

record tree_row =
  tr_tree_id :: uuid
  tr_document_id :: uuid
  tr_title :: ustring
  tr_total_nodes :: nat

record node_row =
  nr_id :: uuid
  nr_tree_id :: uuid
  nr_parent_id :: "uuid option"
  nr_level :: nat
  nr_index :: nat
  nr_title :: ustring
  nr_char_start :: nat
  nr_char_end :: nat
  nr_summary :: "ustring option"
  nr_content_preview :: "ustring option"
  nr_embedding :: "vec option"

record metadata =
  md_node_path :: "ustring option"
  md_level :: "nat option"

record chunk_row =
  cr_id :: uuid
  cr_document_id :: uuid
  cr_chunk_index :: int
  cr_content :: ustring
  cr_metadata :: metadata
  cr_node_id :: "uuid option"

record embedding_row =
  er_chunk_id :: uuid
  er_embedding :: vec
  er_model_id :: ustring

record database =
  documents :: "uuid list"
  doc_trees :: "tree_row list"
  doc_nodes :: "node_row list"
  document_chunks :: "chunk_row list"
  chunk_embeddings :: "embedding_row list"
  next_uuid :: nat

datatype db_error = UniqueViolation | ForeignKeyViolation | NegativeLimit

section \<open>Hybrid retrieval\<close>

text \<open>The cosine distance operator \<^verbatim>\<open><=>\<close> of the vector extension.\<close>

definition dot :: "vec \<Rightarrow> vec \<Rightarrow> real" where
  "dot a b = sum_list (map (\<lambda>(x, y). x * y) (zip a b))"

definition cosine_distance :: "vec \<Rightarrow> vec \<Rightarrow> real" where
  "cosine_distance a b = 1 - dot a b / (sqrt (dot a a) * sqrt (dot b b))"

text \<open>
  The routing query: the ten nodes nearest to the query vector among the nodes that have
  an embedding, each with \<open>1 - distance\<close> as score.  Rows at the same distance are kept
  in table order.
\<close>

definition relevant_nodes :: "database \<Rightarrow> vec \<Rightarrow> (uuid \<times> real) list" where
  "relevant_nodes db q =
     map (\<lambda>n. (nr_id n, 1 - cosine_distance (the (nr_embedding n)) q))
       (take 10 (sort_key (\<lambda>n. cosine_distance (the (nr_embedding n)) q)
          (filter (\<lambda>n. nr_embedding n \<noteq> None) (doc_nodes db))))"

text \<open>\<^verbatim>\<open>{n["node_id"]: n["score"] for n in relevant_nodes}\<close>\<close>

definition node_scores :: "database \<Rightarrow> vec \<Rightarrow> (uuid \<rightharpoonup> real)" where
  "node_scores db q = foldl (\<lambda>m (k, v). m(k \<mapsto> v)) Map.empty (relevant_nodes db q)"

text \<open>
  The chunk query: embeddings joined with their chunk, left-joined with the chunk's node,
  restricted to scores of at least \<open>min_score\<close>, nearest first, cut at the limit.
\<close>

record hit =
  h_chunk_id :: uuid
  h_document_id :: uuid
  h_content :: ustring
  h_metadata :: metadata
  h_node_id :: "uuid option"
  h_node_title :: "ustring option"
  h_node_level :: "nat option"
  h_vector_score :: real

definition left_join_node :: "node_row list \<Rightarrow> chunk_row \<Rightarrow> node_row option list" where
  "left_join_node ns dc =
     (case filter (\<lambda>dn. cr_node_id dc = Some (nr_id dn)) ns of
        [] \<Rightarrow> [None]
      | ms \<Rightarrow> map Some ms)"

definition joined_rows :: "database \<Rightarrow> (embedding_row \<times> chunk_row \<times> node_row option) list" where
  "joined_rows db =
     concat (map (\<lambda>ce.
       concat (map (\<lambda>dc. map (\<lambda>dn. (ce, dc, dn)) (left_join_node (doc_nodes db) dc))
         (filter (\<lambda>dc. er_chunk_id ce = cr_id dc) (document_chunks db))))
       (chunk_embeddings db))"

definition to_hit :: "vec \<Rightarrow> embedding_row \<times> chunk_row \<times> node_row option \<Rightarrow> hit" where
  "to_hit q row =
     (case row of (ce, dc, dn) \<Rightarrow>
        \<lparr>h_chunk_id = cr_id dc, h_document_id = cr_document_id dc, h_content = cr_content dc,
         h_metadata = cr_metadata dc, h_node_id = cr_node_id dc,
         h_node_title = map_option nr_title dn, h_node_level = map_option nr_level dn,
         h_vector_score = 1 - cosine_distance (er_embedding ce) q\<rparr>)"

definition fetch_chunks :: "database \<Rightarrow> vec \<Rightarrow> real \<Rightarrow> nat \<Rightarrow> hit list" where
  "fetch_chunks db q min_score limit =
     map (to_hit q)
       (take limit (sort_key (\<lambda>(ce, dc, dn). cosine_distance (er_embedding ce) q)
          (filter (\<lambda>(ce, dc, dn). min_score \<le> 1 - cosine_distance (er_embedding ce) q)
             (joined_rows db))))"

record result =
  r_chunk_id :: uuid
  r_document_id :: uuid
  r_content :: ustring
  r_node_path :: ustring
  r_node_title :: "ustring option"
  r_score :: real
  r_vector_score :: real
  r_node_boost :: real

text \<open>
  The fusion of one fetched chunk.  The metadata column is read as the decoded object,
  \<^verbatim>\<open>chunk["metadata"].get("node_path", "")\<close>.  An id is a uuid and never an empty string, so the
  test \<^verbatim>\<open>if node_id and node_id in node_scores\<close> fails only for a chunk without node and
  for a node outside the lookup.
\<close>

definition fuse :: "(uuid \<rightharpoonup> real) \<Rightarrow> hit \<Rightarrow> result" where
  "fuse scores chunk =
     (let vector_score = h_vector_score chunk;
          node_boost = (case h_node_id chunk of
                          None \<Rightarrow> 0
                        | Some n \<Rightarrow> (case scores n of None \<Rightarrow> 0 | Some s \<Rightarrow> s * (3 / 10)));
          final_score = min (vector_score + node_boost) 1
      in \<lparr>r_chunk_id = h_chunk_id chunk, r_document_id = h_document_id chunk,
          r_content = h_content chunk,
          r_node_path = (case md_node_path (h_metadata chunk) of Some p \<Rightarrow> p | None \<Rightarrow> []),
          r_node_title = h_node_title chunk,
          r_score = final_score, r_vector_score = vector_score, r_node_boost = node_boost\<rparr>)"

text \<open>
  \<^verbatim>\<open>results.sort(key=..., reverse=True)\<close>: the list is reversed, sorted by a stable sort and
  reversed again, so results with equal keys keep their order.
\<close>

definition sort_reverse :: "('a \<Rightarrow> real) \<Rightarrow> 'a list \<Rightarrow> 'a list" where
  "sort_reverse key xs = rev (sort_key key (rev xs))"

text \<open>
  \<^verbatim>\<open>hybrid_search\<close>.  The arguments \<open>query\<close> and \<open>document_ids\<close> are not used by the body.
  The database rejects a negative \<^verbatim>\<open>LIMIT\<close>; otherwise \<open>top_k\<close> is not negative and the
  slice \<^verbatim>\<open>results[:top_k]\<close> is a prefix.
\<close>

definition hybrid_search ::
  "database \<Rightarrow> ustring \<Rightarrow> vec \<Rightarrow> int \<Rightarrow> real \<Rightarrow> uuid list option \<Rightarrow> db_error + result list" where
  "hybrid_search db query query_embedding top_k min_score document_ids =
     (let scores = node_scores db query_embedding in
      if top_k * 2 < 0 then Inl NegativeLimit
      else (let chunks = fetch_chunks db query_embedding min_score (nat (top_k * 2));
                results = map (fuse scores) chunks
            in Inr (take (nat top_k) (sort_reverse r_score results))))"

text \<open>The order the specification asks for: by score, then by chunk index.\<close>

definition chunk_index_of :: "database \<Rightarrow> uuid \<Rightarrow> int" where
  "chunk_index_of db cid =
     (case filter (\<lambda>c. cr_id c = cid) (document_chunks db) of c # _ \<Rightarrow> cr_chunk_index c | [] \<Rightarrow> 0)"

definition ranked_with_index_ties :: "database \<Rightarrow> result list \<Rightarrow> bool" where
  "ranked_with_index_ties db rs \<longleftrightarrow>
     sorted_wrt (\<lambda>a b. r_score b < r_score a \<or>
        (r_score a = r_score b \<and> chunk_index_of db (r_chunk_id a) \<le> chunk_index_of db (r_chunk_id b))) rs"

text \<open>Example stores for the concrete runs below.\<close>

definition chunk_of :: "uuid \<Rightarrow> uuid \<Rightarrow> int \<Rightarrow> uuid option \<Rightarrow> chunk_row" where
  "chunk_of cid did idx nid =
     \<lparr>cr_id = cid, cr_document_id = did, cr_chunk_index = idx, cr_content = [],
      cr_metadata = \<lparr>md_node_path = None, md_level = None\<rparr>, cr_node_id = nid\<rparr>"

definition node_of :: "uuid \<Rightarrow> vec \<Rightarrow> node_row" where
  "node_of nid e =
     \<lparr>nr_id = nid, nr_tree_id = 0, nr_parent_id = None, nr_level = 0, nr_index = 0, nr_title = [],
      nr_char_start = 0, nr_char_end = 0, nr_summary = None, nr_content_preview = None,
      nr_embedding = Some e\<rparr>"

definition embedding_of :: "uuid \<Rightarrow> vec \<Rightarrow> embedding_row" where
  "embedding_of cid e = \<lparr>er_chunk_id = cid, er_embedding = e, er_model_id = []\<rparr>"

definition tie_db :: database where
  "tie_db =
     \<lparr>documents = [100], doc_trees = [],
      doc_nodes = [node_of 1 [1, 0]],
      document_chunks = [chunk_of 11 100 1 (Some 1), chunk_of 10 100 2 (Some 1)],
      chunk_embeddings = [embedding_of 11 [4 / 5, 3 / 5], embedding_of 10 [1, 0]],
      next_uuid = 200\<rparr>"

definition opposed_db :: database where
  "opposed_db =
     \<lparr>documents = [100], doc_trees = [],
      doc_nodes = [node_of 1 [- 1, 0]],
      document_chunks = [chunk_of 10 100 1 (Some 1), chunk_of 11 100 2 None],
      chunk_embeddings = [embedding_of 10 [1, 0], embedding_of 11 [4 / 5, 3 / 5]],
      next_uuid = 200\<rparr>"

definition twin_db :: database where
  "twin_db =
     \<lparr>documents = [100], doc_trees = [],
      doc_nodes = [node_of 1 [1, 0]],
      document_chunks = [chunk_of 10 100 1 (Some 1), chunk_of 11 100 2 (Some 1)],
      chunk_embeddings = [embedding_of 10 [1, 0], embedding_of 11 [1, 0]],
      next_uuid = 200\<rparr>"

definition two_docs_db :: database where
  "two_docs_db =
     \<lparr>documents = [100, 200], doc_trees = [], doc_nodes = [],
      document_chunks = [chunk_of 10 100 1 None, chunk_of 20 200 1 None],
      chunk_embeddings = [embedding_of 10 [4 / 5, 3 / 5], embedding_of 20 [1, 0]],
      next_uuid = 300\<rparr>"


section \<open>Indexing\<close>


















section \<open>Facts about strings and the regular-expression splits\<close>

lemma visible_append [simp]: "visible (a @ b) = visible a @ visible b"
  by (simp add: visible_def)

lemma visible_Nil [simp]: "visible [] = []"
  by (simp add: visible_def)

lemma visible_rev: "visible (rev s) = rev (visible s)"
  by (simp add: visible_def rev_filter)

lemma visible_dropWhile: "visible (dropWhile is_space s) = visible s"
  by (induction s) (simp_all add: visible_def)

lemma visible_takeWhile: "visible (takeWhile is_space s) = []"
  by (induction s) (simp_all add: visible_def)

lemma visible_strip [simp]: "visible (strip s) = visible s"
  by (simp add: strip_def visible_rev visible_dropWhile)

lemma strip_empty_iff: "strip s = [] \<longleftrightarrow> visible s = []"
proof -
  have "strip s = [] \<longleftrightarrow> dropWhile is_space s = []"
  proof (cases "dropWhile is_space s")
    case Nil
    show ?thesis unfolding strip_def Nil by simp
  next
    case (Cons x xs)
    then have "\<not> is_space x"
      by (metis hd_dropWhile list.sel(1) list.distinct(1))
    then have "\<not> (\<forall>y\<in>set (rev (dropWhile is_space s)). is_space y)"
      using Cons by auto
    then show ?thesis
      using Cons by (simp add: strip_def dropWhile_eq_Nil_conv)
  qed
  also have "\<dots> \<longleftrightarrow> visible s = []"
    by (simp add: dropWhile_eq_Nil_conv visible_def filter_empty_conv)
  finally show ?thesis .
qed

lemma visible_all_space: "\<forall>c\<in>set s. is_space c \<Longrightarrow> visible s = []"
  by (simp add: visible_def filter_empty_conv)

lemma is_space_NL [simp]: "is_space NL"
  by (simp add: is_space_def NL_def)

lemma visible_re_split_blank:
  "visible (concat (re_split_blank acc s)) = visible (rev acc @ s)"
proof (induction acc s rule: re_split_blank.induct)
  case (1 acc)
  show ?case by simp
next
  case (2 acc c cs)
  define ws where "ws = takeWhile is_space cs"
  show ?case
  proof (cases "c = NL \<and> NL \<in> set ws")
    case True
    have sp: "\<forall>x\<in>set ws. is_space x"
      unfolding ws_def by (meson set_takeWhileD)
    have tail: "visible (rev (takeWhile (\<lambda>x. x \<noteq> NL) (rev ws))) = []"
      by (rule visible_all_space) (use sp in \<open>auto dest: set_takeWhileD\<close>)
    have "visible (concat (re_split_blank acc (c # cs)))
        = visible (rev acc) @ visible (concat (re_split_blank [] (rev (takeWhile (\<lambda>x. x \<noteq> NL) (rev ws)) @ dropWhile is_space cs)))"
      using True by (simp add: ws_def Let_def)
    also have "\<dots> = visible (rev acc) @ visible (rev (takeWhile (\<lambda>x. x \<noteq> NL) (rev ws)) @ dropWhile is_space cs)"
      using "2.IH"(1) [OF ws_def] True by simp
    also have "\<dots> = visible (rev acc) @ visible cs"
      using tail by (simp add: visible_dropWhile)
    also have "\<dots> = visible (rev acc @ c # cs)"
      using True by (simp add: visible_def)
    finally show ?thesis .
  next
    case False
    then have "re_split_blank acc (c # cs) = re_split_blank (c # acc) cs"
      by (auto simp add: ws_def Let_def)
    then show ?thesis
      using "2.IH"(2) [OF ws_def] False by simp
  qed
qed

lemma concat_split_delim:
  "concat (map (\<lambda>(a, b). a @ b) (zip (evens (re_split_delim acc s)) (odds (re_split_delim acc s) @ [[]]))) = rev acc @ s"
  by (induction s arbitrary: acc) simp_all

lemma concat_split_sentences: "concat (split_sentences para) = para"
  using concat_split_delim [of "[]" para] by (simp add: split_sentences_def Let_def)

section \<open>Properties of the segmentation primitive\<close>

lemma size_ok_init: "size_ok init_split"
  by (simp add: size_ok_def init_split_def)

lemma size_ok_add_sentence: "size_ok st \<Longrightarrow> size_ok (add_sentence cs ov st u)"
  by (simp add: size_ok_def add_sentence_def emit_with_def)

lemma size_ok_sentences: "size_ok st \<Longrightarrow> size_ok (foldl (add_sentence cs ov) st us)"
  by (induction us arbitrary: st) (simp_all add: size_ok_add_sentence)

lemma size_ok_add_short_para: "size_ok st \<Longrightarrow> size_ok (add_short_para cs ov st p)"
  by (simp add: size_ok_def add_short_para_def emit_with_def Let_def)

lemma size_ok_add_para: "size_ok st \<Longrightarrow> size_ok (add_para cs ov st p)"
  by (simp add: add_para_def Let_def size_ok_sentences size_ok_add_short_para)

lemma size_ok_paras: "size_ok st \<Longrightarrow> size_ok (foldl (add_para cs ov) st ps)"
  by (induction ps arbitrary: st) (simp_all add: size_ok_add_para)

lemma overlap_text_Nil [simp]: "overlap_text ov [] = []"
  by (simp add: overlap_text_def)

lemma buffers_snoc:
  "buffers ov prev (bs @ [b]) =
     buffers ov prev bs @ [overlap_text ov (last (prev # buffers ov prev bs)) @ b]"
  by (induction bs arbitrary: prev) simp_all

lemma buffers_no_overlap: "ov \<le> 0 \<Longrightarrow> buffers ov prev bs = bs"
  by (induction bs arbitrary: prev) (simp_all add: overlap_text_def)

lemma buffered_init: "buffered ov init_split [] []"
  by (simp add: buffered_def init_split_def)

lemma buffered_emit:
  assumes "buffered ov st bodies body"
  shows "buffered ov (emit_with ov st u) (bodies @ [body]) u"
  using assms by (simp add: buffered_def emit_with_def buffers_snoc)

lemma buffered_grow:
  assumes "buffered ov st bodies body"
  shows "buffered ov (st\<lparr>current_chunk := current_chunk st @ x, current_size := n\<rparr>) bodies (body @ x)"
  using assms by (simp add: buffered_def)

lemma buffered_add_sentence:
  assumes "buffered ov st bodies body"
  shows "\<exists>bodies' body'. buffered ov (add_sentence cs ov st u) bodies' body' \<and>
           concat bodies' @ body' = concat bodies @ body @ u"
proof (cases "current_size st + int (length u) > cs \<and> current_chunk st \<noteq> []")
  case True
  then have "add_sentence cs ov st u = emit_with ov st u"
    by (simp add: add_sentence_def)
  then show ?thesis
    using buffered_emit [OF assms, where u = u] by (intro exI conjI) (assumption | simp)+
next
  case False
  then have "add_sentence cs ov st u =
      st\<lparr>current_chunk := current_chunk st @ u, current_size := current_size st + int (length u)\<rparr>"
    by (auto simp add: add_sentence_def)
  then show ?thesis
    using buffered_grow [OF assms, where x = u] by (intro exI conjI) (assumption | simp)+
qed

lemma buffered_sentences:
  assumes "buffered ov st bodies body"
  shows "\<exists>bodies' body'. buffered ov (foldl (add_sentence cs ov) st us) bodies' body' \<and>
           concat bodies' @ body' = concat bodies @ body @ concat us"
  using assms
proof (induction us arbitrary: st bodies body)
  case Nil
  then show ?case by auto
next
  case (Cons u us)
  from buffered_add_sentence [OF Cons.prems, of cs u]
  obtain bodies1 body1 where
    t1: "buffered ov (add_sentence cs ov st u) bodies1 body1" and
    v1: "concat bodies1 @ body1 = concat bodies @ body @ u"
    by blast
  from Cons.IH [OF t1]
  obtain bodies2 body2 where
    t2: "buffered ov (foldl (add_sentence cs ov) (add_sentence cs ov st u) us) bodies2 body2" and
    v2: "concat bodies2 @ body2 = concat bodies1 @ body1 @ concat us"
    by blast
  have "concat bodies2 @ body2 = (concat bodies1 @ body1) @ concat us"
    using v2 by simp
  then have "concat bodies2 @ body2 = concat bodies @ body @ concat (u # us)"
    unfolding v1 by simp
  with t2 show ?case
    by (simp only: foldl_Cons) blast
qed

lemma buffered_add_short_para:
  assumes "buffered ov st bodies body"
  shows "\<exists>bodies' body' s. buffered ov (add_short_para cs ov st p) bodies' body' \<and>
           (s = [] \<or> s = [NL, NL]) \<and>
           concat bodies' @ body' = concat bodies @ body @ s @ p"
proof (cases "current_size st + int (length p) + 2 > cs \<and> current_chunk st \<noteq> []")
  case True
  then have "add_short_para cs ov st p = emit_with ov st p"
    by (simp add: add_short_para_def)
  then show ?thesis
    using buffered_emit [OF assms, where u = p]
    by (intro exI [of _ "bodies @ [body]"] exI [of _ p] exI [of _ "[]"]) simp
next
  case False
  show ?thesis
  proof (cases "current_chunk st = []")
    case True
    then have "add_short_para cs ov st p =
        st\<lparr>current_chunk := current_chunk st @ p, current_size := int (length p)\<rparr>"
      using False by (simp add: add_short_para_def)
    then show ?thesis
      using buffered_grow [OF assms, where x = p]
      by (intro exI [of _ bodies] exI [of _ "body @ p"] exI [of _ "[]"]) simp
  next
    case nonempty: False
    then have "add_short_para cs ov st p =
        st\<lparr>current_chunk := current_chunk st @ ([NL, NL] @ p),
           current_size := int (length (current_chunk st @ [NL, NL] @ p))\<rparr>"
      using False by (simp add: add_short_para_def)
    then show ?thesis
      using buffered_grow [OF assms, where x = "[NL, NL] @ p"]
      by (intro exI [of _ bodies] exI [of _ "body @ [NL, NL] @ p"] exI [of _ "[NL, NL]"])
        (simp del: append.simps)
  qed
qed

lemma buffered_add_para:
  assumes "buffered ov st bodies body" and "strip p \<noteq> []"
  shows "\<exists>bodies' body' s. buffered ov (add_para cs ov st p) bodies' body' \<and>
           (s = [] \<or> s = [NL, NL]) \<and>
           concat bodies' @ body' = concat bodies @ body @ s @ strip p"
proof (cases "int (length (strip p)) > cs")
  case True
  then have "add_para cs ov st p = foldl (add_sentence cs ov) st (split_sentences (strip p))"
    using assms(2) by (simp add: add_para_def)
  moreover from buffered_sentences [OF assms(1), of cs "split_sentences (strip p)"]
  obtain bodies' body' where
    "buffered ov (foldl (add_sentence cs ov) st (split_sentences (strip p))) bodies' body'"
    "concat bodies' @ body' = concat bodies @ body @ [] @ strip p"
    by (auto simp add: concat_split_sentences)
  ultimately show ?thesis
    by (intro exI [of _ bodies'] exI [of _ body'] exI [of _ "[]"]) simp
next
  case short: False
  then have "add_para cs ov st p = add_short_para cs ov st (strip p)"
    using assms(2) by (simp add: add_para_def)
  then show ?thesis
    using buffered_add_short_para [OF assms(1), of cs "strip p"] by simp
qed

lemma add_para_blank: "strip p = [] \<Longrightarrow> add_para cs ov st p = st"
  by (simp add: add_para_def)

lemma buffered_paras:
  assumes "buffered ov st bodies body"
  shows "\<exists>bodies' body' seps. buffered ov (foldl (add_para cs ov) st ps) bodies' body' \<and>
           length seps = length (filter (\<lambda>p. p \<noteq> []) (map strip ps)) \<and>
           list_all (\<lambda>s. s = [] \<or> s = [NL, NL]) seps \<and>
           concat bodies' @ body' =
             concat bodies @ body @ join_paragraphs seps (filter (\<lambda>p. p \<noteq> []) (map strip ps))"
  using assms
proof (induction ps arbitrary: st bodies body)
  case Nil
  then show ?case
    by (intro exI [of _ bodies] exI [of _ body] exI [of _ "[]"]) (simp add: join_paragraphs_def)
next
  case (Cons p ps)
  show ?case
  proof (cases "strip p = []")
    case True
    from Cons.IH [OF Cons.prems] show ?thesis
      using True by (simp add: add_para_blank)
  next
    case False
    from buffered_add_para [OF Cons.prems False, of cs]
    obtain bodies1 body1 s where
      t1: "buffered ov (add_para cs ov st p) bodies1 body1" and
      s: "s = [] \<or> s = [NL, NL]" and
      v1: "concat bodies1 @ body1 = concat bodies @ body @ s @ strip p"
      by blast
    from Cons.IH [OF t1]
    obtain bodies2 body2 seps where
      t2: "buffered ov (foldl (add_para cs ov) (add_para cs ov st p) ps) bodies2 body2" and
      l2: "length seps = length (filter (\<lambda>p. p \<noteq> []) (map strip ps))" and
      a2: "list_all (\<lambda>s. s = [] \<or> s = [NL, NL]) seps" and
      v2: "concat bodies2 @ body2 =
        concat bodies1 @ body1 @ join_paragraphs seps (filter (\<lambda>p. p \<noteq> []) (map strip ps))"
      by blast
    have "concat bodies2 @ body2 =
        (concat bodies1 @ body1) @ join_paragraphs seps (filter (\<lambda>p. p \<noteq> []) (map strip ps))"
      using v2 by simp
    then have v: "concat bodies2 @ body2 =
        concat bodies @ body @ join_paragraphs (s # seps) (filter (\<lambda>p. p \<noteq> []) (map strip (p # ps)))"
      unfolding v1 using False by (simp add: join_paragraphs_def)
    have l: "length (s # seps) = length (filter (\<lambda>p. p \<noteq> []) (map strip (p # ps)))"
      using l2 False by simp
    have a: "list_all (\<lambda>s. s = [] \<or> s = [NL, NL]) (s # seps)"
      using a2 s by simp
    from t2 l a v show ?thesis
      by (simp only: foldl_Cons) blast
  qed
qed

lemma blank_all_space: "strip s = [] \<Longrightarrow> list_all is_space s"
  by (simp add: strip_empty_iff visible_def filter_empty_conv list_all_iff)

lemma buffered_flush:
  assumes "buffered ov st bodies body"
  shows "\<exists>bodies' rest. flush st = map strip (buffers ov [] bodies') \<and>
           concat bodies' @ rest = concat bodies @ body \<and> list_all is_space rest"
proof (cases "strip (current_chunk st) = []")
  case True
  then have "list_all is_space (current_chunk st)"
    by (rule blank_all_space)
  then have "list_all is_space body"
    using assms by (simp add: buffered_def)
  moreover have "flush st = map strip (buffers ov [] bodies)"
    using True assms by (simp add: flush_def buffered_def)
  ultimately show ?thesis
    by blast
next
  case False
  have "flush st = map strip (buffers ov [] (bodies @ [body]))"
    using False assms by (simp add: flush_def buffered_def buffers_snoc)
  then show ?thesis
    by (intro exI [of _ "bodies @ [body]"] exI [of _ "[]"]) simp
qed

lemma buffered_first_para:
  assumes "buffered ov st bodies body" and "current_chunk st = []" and "strip p \<noteq> []"
  shows "\<exists>bodies' body'. buffered ov (add_para cs ov st p) bodies' body' \<and>
           concat bodies' @ body' = concat bodies @ body @ strip p"
proof (cases "int (length (strip p)) > cs")
  case True
  then have "add_para cs ov st p = foldl (add_sentence cs ov) st (split_sentences (strip p))"
    using assms(3) by (simp add: add_para_def)
  then show ?thesis
    using buffered_sentences [OF assms(1), of cs "split_sentences (strip p)"]
    by (simp add: concat_split_sentences)
next
  case False
  then have "add_para cs ov st p =
      st\<lparr>current_chunk := current_chunk st @ strip p, current_size := int (length (strip p))\<rparr>"
    using assms(2,3) by (simp add: add_para_def add_short_para_def Let_def)
  then show ?thesis
    using buffered_grow [OF assms(1), where x = "strip p"]
    by (intro exI [of _ bodies] exI [of _ "body @ strip p"]) simp
qed

lemma buffered_run:
  "\<exists>bodies body seps. buffered ov (foldl (add_para cs ov) init_split ps) bodies body \<and>
     length seps = length (filter (\<lambda>p. p \<noteq> []) (map strip ps)) - 1 \<and>
     list_all (\<lambda>s. s = [] \<or> s = [NL, NL]) seps \<and>
     concat bodies @ body = join_paragraphs ([] # seps) (filter (\<lambda>p. p \<noteq> []) (map strip ps))"
proof (induction ps)
  case Nil
  show ?case
    using buffered_init [of ov]
    by (intro exI [of _ "[]"]) (simp add: join_paragraphs_def)
next
  case (Cons p ps)
  show ?case
  proof (cases "strip p = []")
    case True
    with Cons.IH show ?thesis
      by (simp add: add_para_blank)
  next
    case False
    from buffered_first_para [OF buffered_init _ False, of ov cs]
    obtain bodies1 body1 where
      t1: "buffered ov (add_para cs ov init_split p) bodies1 body1" and
      v1: "concat bodies1 @ body1 = strip p"
      by (auto simp add: init_split_def)
    from buffered_paras [OF t1, of cs ps]
    obtain bodies2 body2 seps where
      t2: "buffered ov (foldl (add_para cs ov) (add_para cs ov init_split p) ps) bodies2 body2" and
      l2: "length seps = length (filter (\<lambda>p. p \<noteq> []) (map strip ps))" and
      a2: "list_all (\<lambda>s. s = [] \<or> s = [NL, NL]) seps" and
      v2: "concat bodies2 @ body2 =
        concat bodies1 @ body1 @ join_paragraphs seps (filter (\<lambda>p. p \<noteq> []) (map strip ps))"
      by blast
    have "concat bodies2 @ body2 =
        (concat bodies1 @ body1) @ join_paragraphs seps (filter (\<lambda>p. p \<noteq> []) (map strip ps))"
      using v2 by simp
    then have v: "concat bodies2 @ body2 =
        join_paragraphs ([] # seps) (filter (\<lambda>p. p \<noteq> []) (map strip (p # ps)))"
      unfolding v1 using False by (simp add: join_paragraphs_def)
    have l: "length seps = length (filter (\<lambda>p. p \<noteq> []) (map strip (p # ps))) - 1"
      using l2 False by simp
    from t2 l a2 v show ?thesis
      by (simp only: foldl_Cons) blast
  qed
qed

lemma strip_last_visible:
  assumes "strip s \<noteq> []"
  shows "\<not> is_space (last (strip s))"
proof -
  have "dropWhile is_space (rev (dropWhile is_space s)) \<noteq> []"
    using assms by (simp add: strip_def)
  then have "\<not> is_space (hd (dropWhile is_space (rev (dropWhile is_space s))))"
    by (rule hd_dropWhile)
  then show ?thesis
    using assms by (simp add: strip_def last_rev)
qed

lemma join_paragraphs_last:
  assumes "length seps = length paras" and "paras \<noteq> []" and "last paras \<noteq> []"
  shows "join_paragraphs seps paras \<noteq> [] \<and> last (join_paragraphs seps paras) = last (last paras)"
proof -
  from assms(2) obtain ps p where paras: "paras = ps @ [p]"
    by (metis append_butlast_last_id)
  with assms(1) have "seps \<noteq> []" by auto
  then obtain ss s where seps: "seps = ss @ [s]"
    by (metis append_butlast_last_id)
  have "length ss = length ps"
    using assms(1) paras seps by simp
  then have "zip seps paras = zip ss ps @ [(s, p)]"
    unfolding paras seps by simp
  then have "join_paragraphs seps paras = (concat (map (\<lambda>(s, p). s @ p) (zip ss ps)) @ s) @ p"
    by (simp add: join_paragraphs_def)
  moreover have "p \<noteq> []"
    using assms(3) paras by simp
  ultimately show ?thesis
    using paras by (simp del: append_assoc)
qed

lemma blank_suffix_empty:
  assumes "xs @ rest = ys" and "list_all is_space rest" and "ys \<noteq> [] \<and> \<not> is_space (last ys)"
  shows "rest = []"
proof (rule ccontr)
  assume "rest \<noteq> []"
  then have "last ys = last rest" and "last rest \<in> set rest"
    using assms(1) by auto
  then show False
    using assms(2,3) by (simp add: list_all_iff)
qed

lemma paragraphs_last:
  assumes "paragraphs doc \<noteq> []"
  shows "last (paragraphs doc) \<noteq> [] \<and> \<not> is_space (last (last (paragraphs doc)))"
proof -
  have "last (paragraphs doc) \<in> set (paragraphs doc)"
    using assms by simp
  then obtain q where "last (paragraphs doc) = strip q" and "strip q \<noteq> []"
    by (auto simp add: paragraphs_def)
  then show ?thesis
    using strip_last_visible [of q] by simp
qed

lemma smart_split_bodies:
  "\<exists>bodies seps.
     smart_split doc cs ov = map strip (buffers ov [] bodies) \<and>
     concat bodies = join_paragraphs ([] # seps) (paragraphs doc) \<and>
     length seps = length (paragraphs doc) - 1 \<and>
     list_all (\<lambda>s. s = [] \<or> s = [NL, NL]) seps"
proof -
  from buffered_run [of ov cs "re_split_blank [] doc"]
  obtain bodies body seps where
    t: "buffered ov (run_paragraphs doc cs ov) bodies body" and
    l: "length seps = length (paragraphs doc) - 1" and
    a: "list_all (\<lambda>s. s = [] \<or> s = [NL, NL]) seps" and
    v: "concat bodies @ body = join_paragraphs ([] # seps) (paragraphs doc)"
    by (auto simp add: run_paragraphs_def paragraphs_def)
  from buffered_flush [OF t]
  obtain bodies' rest where
    f: "flush (run_paragraphs doc cs ov) = map strip (buffers ov [] bodies')" and
    c: "concat bodies' @ rest = concat bodies @ body" and
    r: "list_all is_space rest"
    by blast
  have "rest = []"
  proof (cases "paragraphs doc = []")
    case True
    then show ?thesis
      using c v by (simp add: join_paragraphs_def)
  next
    case False
    then have "length ([] # seps) = length (paragraphs doc)"
      using l by (cases "paragraphs doc") simp_all
    from join_paragraphs_last [OF this False] paragraphs_last [OF False]
    have "join_paragraphs ([] # seps) (paragraphs doc) \<noteq> [] \<and>
        \<not> is_space (last (join_paragraphs ([] # seps) (paragraphs doc)))"
      by simp
    with c r show ?thesis
      unfolding v by (rule blank_suffix_empty)
  qed
  with c have "concat bodies' = join_paragraphs ([] # seps) (paragraphs doc)"
    unfolding v by simp
  with f l a show ?thesis
    unfolding smart_split_def by blast
qed

lemma re_split_blank_rejoin:
  "\<exists>gaps. length gaps + 1 = length (re_split_blank acc s) \<and>
      list_all (\<lambda>g. g \<noteq> [] \<and> list_all is_space g) gaps \<and>
      rejoin (re_split_blank acc s) gaps = rev acc @ s"
proof (induction acc s rule: re_split_blank.induct)
  case (1 acc)
  show ?case
    by (intro exI [of _ "[]"]) simp
next
  case (2 acc c cs)
  define ws where "ws = takeWhile is_space cs"
  define rem where "rem = rev (takeWhile (\<lambda>x. x \<noteq> NL) (rev ws)) @ dropWhile is_space cs"
  define g where "g = c # rev (dropWhile (\<lambda>x. x \<noteq> NL) (rev ws))"
  show ?case
  proof (cases "c = NL \<and> NL \<in> set ws")
    case True
    have split: "re_split_blank acc (c # cs) = rev acc # re_split_blank [] rem"
      using True by (simp add: ws_def rem_def Let_def)
    have sp: "list_all is_space ws"
      unfolding ws_def list_all_iff by (meson set_takeWhileD)
    have "rev ws = takeWhile (\<lambda>x. x \<noteq> NL) (rev ws) @ dropWhile (\<lambda>x. x \<noteq> NL) (rev ws)"
      by simp
    then have "rev (rev ws) =
        rev (takeWhile (\<lambda>x. x \<noteq> NL) (rev ws) @ dropWhile (\<lambda>x. x \<noteq> NL) (rev ws))"
      by (rule arg_cong)
    then have ws: "ws = rev (dropWhile (\<lambda>x. x \<noteq> NL) (rev ws)) @ rev (takeWhile (\<lambda>x. x \<noteq> NL) (rev ws))"
      by (simp only: rev_rev_ident rev_append)
    have "cs = ws @ dropWhile is_space cs"
      by (simp add: ws_def)
    then have "cs = (rev (dropWhile (\<lambda>x. x \<noteq> NL) (rev ws)) @ rev (takeWhile (\<lambda>x. x \<noteq> NL) (rev ws)))
        @ dropWhile is_space cs"
      using ws by simp
    then have whole: "c # cs = g @ rem"
      by (simp add: g_def rem_def)
    have "set (dropWhile (\<lambda>x. x \<noteq> NL) (rev ws)) \<subseteq> set ws"
      using set_dropWhileD [of _ "\<lambda>x. x \<noteq> NL" "rev ws"] by auto
    then have gsp: "g \<noteq> [] \<and> list_all is_space g"
      using sp True by (auto simp add: g_def list_all_iff)
    from "2.IH"(1) [OF ws_def] True
    obtain gaps where
      l: "length gaps + 1 = length (re_split_blank [] rem)" and
      a: "list_all (\<lambda>g. g \<noteq> [] \<and> list_all is_space g) gaps" and
      r: "rejoin (re_split_blank [] rem) gaps = rem"
      unfolding rem_def ws_def by auto
    have "rejoin (re_split_blank acc (c # cs)) (g # gaps) = rev acc @ c # cs"
      unfolding split using r whole by simp
    moreover have "length (g # gaps) + 1 = length (re_split_blank acc (c # cs))"
      unfolding split using l by simp
    moreover have "list_all (\<lambda>g. g \<noteq> [] \<and> list_all is_space g) (g # gaps)"
      using a gsp by simp
    ultimately show ?thesis
      by blast
  next
    case False
    then have "re_split_blank acc (c # cs) = re_split_blank (c # acc) cs"
      by (auto simp add: ws_def Let_def)
    then show ?thesis
      using "2.IH"(2) [OF ws_def] False by simp
  qed
qed

lemma pending_add_sentence: "pending cs st c \<Longrightarrow> pending cs (add_sentence cs ov st u) c"
  by (auto simp add: pending_def add_sentence_def emit_with_def)

lemma pending_sentences: "pending cs st c \<Longrightarrow> pending cs (foldl (add_sentence cs ov) st us) c"
  by (induction us arbitrary: st) (simp_all add: pending_add_sentence)

lemma pending_add_short_para: "pending cs st c \<Longrightarrow> pending cs (add_short_para cs ov st p) c"
  by (auto simp add: pending_def add_short_para_def emit_with_def Let_def)

lemma pending_add_para: "pending cs st c \<Longrightarrow> pending cs (add_para cs ov st p) c"
  by (simp add: add_para_def Let_def pending_sentences pending_add_short_para)

lemma pending_paras: "pending cs st c \<Longrightarrow> pending cs (foldl (add_para cs ov) st ps) c"
  by (induction ps arbitrary: st) (simp_all add: pending_add_para)

lemma pending_flush: "pending cs st c \<Longrightarrow> c \<noteq> [] \<Longrightarrow> c \<in> set (flush st)"
  by (auto simp add: pending_def flush_def)

lemma length_overlap_text: "int (length (overlap_text ov cur)) \<le> max 0 ov"
  by (auto simp add: overlap_text_def)

lemma oversized_sentence_pending:
  assumes "size_ok st" and "cs < int (length u)" and "u \<noteq> []"
  shows "pending cs (add_sentence cs ov st u) (strip (overlap_text ov (current_chunk st) @ u))"
proof (cases "current_chunk st = []")
  case True
  then have "current_size st = 0"
    using assms(1) by (simp add: size_ok_def)
  then show ?thesis
    using True assms(2,3) by (simp add: pending_def add_sentence_def)
next
  case False
  have "0 \<le> current_size st"
    using assms(1) by (simp add: size_ok_def)
  then have "add_sentence cs ov st u = emit_with ov st u"
    using False assms(2) by (simp add: add_sentence_def)
  then show ?thesis
    using assms(2,3) by (simp add: pending_def emit_with_def)
qed

lemma rstrip_append:
  assumes "visible b \<noteq> []"
  shows "rev (dropWhile is_space (rev (a @ b))) = a @ rev (dropWhile is_space (rev b))"
proof -
  from assms obtain x where "x \<in> set (rev b)" "\<not> is_space x"
    by (auto simp add: visible_def filter_empty_conv)
  then have "dropWhile is_space (rev b @ rev a) = dropWhile is_space (rev b) @ rev a"
    by (simp add: dropWhile_append1)
  then show ?thesis by simp
qed

lemma strip_keeps_unit:
  assumes "strip u \<noteq> []"
  shows "suffix (strip u) (strip (pre @ u))"
proof -
  have vu: "visible u \<noteq> []"
    using assms by (simp add: strip_empty_iff)
  then have vl: "visible (dropWhile is_space u) \<noteq> []"
    by (simp add: visible_dropWhile)
  show ?thesis
  proof (cases "\<forall>x\<in>set pre. is_space x")
    case True
    then have "dropWhile is_space (pre @ u) = dropWhile is_space u"
      by (simp add: dropWhile_append2)
    then show ?thesis by (simp add: strip_def)
  next
    case False
    then have "dropWhile is_space (pre @ u) = dropWhile is_space pre @ u"
      by (auto simp add: dropWhile_append1)
    then have "strip (pre @ u) = dropWhile is_space pre @ rev (dropWhile is_space (rev u))"
      using rstrip_append [OF vu] by (simp add: strip_def)
    moreover have "rev (dropWhile is_space (rev u)) = takeWhile is_space u @ strip u"
      using rstrip_append [OF vl, of "takeWhile is_space u"] by (simp add: strip_def)
    ultimately show ?thesis
      by (simp add: suffix_def)
  qed
qed

lemma strip_id:
  assumes "u \<noteq> []" and "\<not> is_space (hd u)" and "\<not> is_space (last u)"
  shows "strip u = u"
proof -
  have "dropWhile is_space u = u"
    using assms(1,2) by (cases u) simp_all
  moreover have "dropWhile is_space (rev u) = rev u"
    using assms(1,3) by (cases "rev u") (simp_all add: last_rev [symmetric] hd_rev)
  ultimately show ?thesis
    by (simp add: strip_def)
qed

text \<open>
  Claim C9.  A unit \<open>u\<close> that alone exceeds \<open>chunk_size\<close> (a sentence of a long paragraph,
  or the whole paragraph when it has no sentence delimiter) is emitted as its own chunk
  and is not cut to a size: some chunk \<open>c\<close> is the stripped text of \<open>pre @ u\<close>, where
  \<open>pre\<close> is the overlap inherited from the buffer that the units before \<open>u\<close> left
  behind (at most \<open>overlap\<close> characters, nothing when \<open>overlap\<close> is not positive), and
  the stripped unit is the end of \<open>c\<close>.  Without overlap the chunk is the stripped unit,
  and the unit itself when it has no whitespace at its edges.  \<^verbatim>\<open>smart_split\<close> is a
  total function with no error branch, so no error is raised.
\<close>

theorem oversized_unit_emitted_whole:
  assumes para: "p \<in> set (re_split_blank [] doc)"
    and long: "cs < int (length (strip p))"
    and unit: "u \<in> set (split_sentences (strip p))"
    and big: "cs < int (length u)"
    and vis: "strip u \<noteq> []"
  shows "\<exists>c\<in>set (smart_split doc cs ov). \<exists>pre.
           c = strip (pre @ u) \<and> int (length pre) \<le> max 0 ov \<and> suffix (strip u) c \<and>
           (ov \<le> 0 \<longrightarrow> c = strip u) \<and>
           (ov \<le> 0 \<and> \<not> is_space (hd u) \<and> \<not> is_space (last u) \<longrightarrow> c = u) \<and>
           (\<exists>ps1 ps2 us1 us2.
              re_split_blank [] doc = ps1 @ p # ps2 \<and>
              split_sentences (strip p) = us1 @ u # us2 \<and>
              pre = overlap_text ov (current_chunk
                (foldl (add_sentence cs ov) (foldl (add_para cs ov) init_split ps1) us1)))"
proof -
  from para obtain ps1 ps2 where ps: "re_split_blank [] doc = ps1 @ p # ps2"
    by (auto simp add: in_set_conv_decomp)
  from unit obtain us1 us2 where us: "split_sentences (strip p) = us1 @ u # us2"
    by (auto simp add: in_set_conv_decomp)
  have u_ne: "u \<noteq> []"
    using vis by (auto simp add: strip_def)
  have p_ne: "strip p \<noteq> []"
    using concat_split_sentences [of "strip p"] us u_ne by auto
  define st1 where "st1 = foldl (add_para cs ov) init_split ps1"
  define st2 where "st2 = foldl (add_sentence cs ov) st1 us1"
  define pre where "pre = overlap_text ov (current_chunk st2)"
  have ok2: "size_ok st2"
    unfolding st2_def st1_def by (intro size_ok_sentences size_ok_paras size_ok_init)
  have "pending cs (add_sentence cs ov st2 u) (strip (pre @ u))"
    unfolding pre_def using ok2 big u_ne by (rule oversized_sentence_pending)
  then have "pending cs (foldl (add_sentence cs ov) (add_sentence cs ov st2 u) us2) (strip (pre @ u))"
    by (rule pending_sentences)
  then have "pending cs (foldl (add_sentence cs ov) st1 (us1 @ u # us2)) (strip (pre @ u))"
    by (simp add: st2_def)
  then have "pending cs (add_para cs ov st1 p) (strip (pre @ u))"
    using long p_ne us by (simp add: add_para_def)
  then have "pending cs (foldl (add_para cs ov) (add_para cs ov st1 p) ps2) (strip (pre @ u))"
    by (rule pending_paras)
  then have pend: "pending cs (run_paragraphs doc cs ov) (strip (pre @ u))"
    by (simp add: run_paragraphs_def ps st1_def)
  have suf: "suffix (strip u) (strip (pre @ u))"
    using vis by (rule strip_keeps_unit)
  then have "strip (pre @ u) \<noteq> []"
    using vis by (auto simp add: suffix_def)
  with pend have mem: "strip (pre @ u) \<in> set (smart_split doc cs ov)"
    unfolding smart_split_def by (rule pending_flush)
  have len: "int (length pre) \<le> max 0 ov"
    unfolding pre_def by (rule length_overlap_text)
  have none: "strip (pre @ u) = strip u" if "ov \<le> 0"
    using len that by simp
  have verbatim: "strip (pre @ u) = u"
    if "ov \<le> 0" and "\<not> is_space (hd u)" and "\<not> is_space (last u)"
    using none [OF that(1)] strip_id [OF u_ne that(2,3)] by simp
  have tie: "\<exists>ps1 ps2 us1 us2.
      re_split_blank [] doc = ps1 @ p # ps2 \<and>
      split_sentences (strip p) = us1 @ u # us2 \<and>
      pre = overlap_text ov (current_chunk
        (foldl (add_sentence cs ov) (foldl (add_para cs ov) init_split ps1) us1))"
    using ps us unfolding pre_def st2_def st1_def by blast
  show ?thesis
    using mem len suf none verbatim tie by blast
qed

text \<open>
  Claim C4, as amended.  The primitive takes \<open>chunk_size\<close> and \<open>overlap\<close> only and
  enforces no minimum.  In every state \<open>st\<close> that the loops reach (after the paragraphs
  \<open>ps\<close> and the sentences \<open>us\<close> of a long paragraph), the buffer is emitted exactly
  when it is not empty and the next unit does not fit, however short the buffer is, and
  nothing is merged forward; after the last unit the buffer is emitted on its own
  whenever it has a visible character, whatever its size.
\<close>

theorem smart_split_emission_rule:
  assumes "st = foldl (add_sentence cs ov) (foldl (add_para cs ov) init_split ps) us"
  shows "chunks (add_sentence cs ov st u) =
           (if current_chunk st \<noteq> [] \<and> cs < int (length (current_chunk st)) + int (length u)
            then chunks st @ [strip (current_chunk st)] else chunks st) \<and>
         chunks (add_short_para cs ov st p) =
           (if current_chunk st \<noteq> [] \<and> cs < int (length (current_chunk st)) + int (length p) + 2
            then chunks st @ [strip (current_chunk st)] else chunks st) \<and>
         flush st = chunks st @ (if strip (current_chunk st) \<noteq> [] then [strip (current_chunk st)] else [])"
proof -
  have "size_ok st"
    unfolding assms by (intro size_ok_sentences size_ok_paras size_ok_init)
  then show ?thesis
    by (auto simp add: size_ok_def add_sentence_def add_short_para_def emit_with_def flush_def Let_def)
qed

section \<open>Properties of the parser\<close>

lemma first_heading_level:
  "first_heading ks line = Some (ttl, lvl) \<Longrightarrow> lvl \<in> set ks"
  by (induction ks) (auto split: option.splits)

lemma heading_level_pos:
  assumes "first_heading HEADING_PATTERNS line = Some (ttl, lvl)"
  shows "0 < lvl"
  using first_heading_level [OF assms] by (auto simp add: HEADING_PATTERNS_def)

lemma nth_update_any: "xs[i := x] ! j = (if i = j \<and> i < length xs then x else xs ! j)"
  by (cases "i < length xs") (simp_all add: nth_list_update list_update_beyond)

lemma close_top_length [simp]: "length (close_top doc st cp) = length (nodes st)"
  by (simp add: close_top_def Let_def)

lemma close_top_start [simp]: "char_start (close_top doc st cp ! j) = char_start (nodes st ! j)"
  by (cases "last (stack st) < length (nodes st)")
     (simp_all add: close_top_def Let_def nth_update_any)

lemma close_top_children [simp]: "child_ids (close_top doc st cp ! j) = child_ids (nodes st ! j)"
  by (cases "last (stack st) < length (nodes st)")
     (simp_all add: close_top_def Let_def nth_update_any)

lemma close_top_end:
  "char_end (close_top doc st cp ! j) =
     (if 1 < length (stack st) \<and> j = last (stack st) \<and> j < length (nodes st) then cp
      else char_end (nodes st ! j))"
  by (auto simp add: close_top_def Let_def nth_update_any)

lemma open_heading_length:
  "length (nodes (open_heading doc lines st i line ttl lvl)) = Suc (length (nodes st))"
  by (simp add: open_heading_def Let_def)

lemma open_heading_stack:
  "stack (open_heading doc lines st i line ttl lvl) = take lvl (stack st) @ [length (nodes st)]"
  by (simp add: open_heading_def Let_def)

lemma open_heading_start_old:
  assumes "j < length (nodes st)"
  shows "char_start (nodes (open_heading doc lines st i line ttl lvl) ! j) = char_start (nodes st ! j)"
  using assms by (simp add: open_heading_def Let_def nth_update_any nth_append)

lemma open_heading_start_new:
  assumes "last (take lvl (stack st)) < length (nodes st)"
  shows "char_start (nodes (open_heading doc lines st i line ttl lvl) ! length (nodes st)) = char_pos lines i + length line + 1"
  using assms by (simp add: open_heading_def Let_def nth_update_any nth_append)

lemma open_heading_end_old:
  assumes "j < length (nodes st)"
  shows "char_end (nodes (open_heading doc lines st i line ttl lvl) ! j) =
           (if 1 < length (stack st) \<and> j = last (stack st) then char_pos lines i else char_end (nodes st ! j))"
  using assms by (simp add: open_heading_def Let_def nth_update_any nth_append close_top_end)

lemma open_heading_children_old:
  assumes "j < length (nodes st)"
  shows "child_ids (nodes (open_heading doc lines st i line ttl lvl) ! j) =
           (if j = last (take lvl (stack st)) then child_ids (nodes st ! j) @ [length (nodes st)]
            else child_ids (nodes st ! j))"
  using assms by (simp add: open_heading_def Let_def nth_update_any nth_append)

lemma open_heading_children_new:
  assumes "last (take lvl (stack st)) < length (nodes st)"
  shows "child_ids (nodes (open_heading doc lines st i line ttl lvl) ! length (nodes st)) = []"
  using assms by (simp add: open_heading_def Let_def nth_update_any nth_append)

lemma store_inv_mono: "store_inv st p \<Longrightarrow> p \<le> q \<Longrightarrow> store_inv st q"
  unfolding store_inv_def by (meson le_trans)

lemma store_inv_open_heading:
  assumes inv: "store_inv st cp" and cp: "cp = char_pos lines i" and lvl: "0 < lvl"
  shows "store_inv (open_heading doc lines st i line ttl lvl) (cp + length line + 1)"
proof -
  let ?st' = "open_heading doc lines st i line ttl lvl"
  let ?n = "length (nodes st)"
  let ?parent = "last (take lvl (stack st))"
  from inv have shape: "store_shape st"
    and newest: "1 < ?n \<longrightarrow> char_start (last (nodes st)) \<le> cp"
    unfolding store_inv_def by blast+
  note s = shape [unfolded store_shape_def]
  note n0' = s [THEN conjunct1]
    and stk = s [THEN conjunct2, THEN conjunct1]
    and bound = s [THEN conjunct2, THEN conjunct2, THEN conjunct1]
    and top = s [THEN conjunct2, THEN conjunct2, THEN conjunct2, THEN conjunct1]
    and many = s [THEN conjunct2, THEN conjunct2, THEN conjunct2, THEN conjunct2, THEN conjunct1]
    and chain = s [THEN conjunct2, THEN conjunct2, THEN conjunct2, THEN conjunct2, THEN conjunct2, THEN conjunct1]
    and kids = s [THEN conjunct2, THEN conjunct2, THEN conjunct2, THEN conjunct2, THEN conjunct2, THEN conjunct2]
  have n0: "0 < ?n" using n0' by simp
  have "take lvl (stack st) \<noteq> []"
    using lvl stk by (cases "stack st") simp_all
  then have "?parent \<in> set (take lvl (stack st))"
    by (rule last_in_set)
  then have "?parent \<in> set (stack st)"
    by (rule in_set_takeD)
  then have parent: "?parent < ?n"
    using bound by blast
  have len: "length (nodes ?st') = Suc ?n"
    by (rule open_heading_length)
  have stack': "stack ?st' = take lvl (stack st) @ [?n]"
    by (rule open_heading_stack)
  have c1: "nodes ?st' \<noteq> []"
    using len by auto
  have c2: "stack ?st' \<noteq> []"
    using stack' by simp
  have c3: "\<forall>s\<in>set (stack ?st'). s < length (nodes ?st')"
    using bound len stack' by (auto dest!: in_set_takeD intro: less_SucI)
  have c4: "last (stack ?st') = length (nodes ?st') - 1"
    using len stack' by simp
  have c5: "1 < length (stack ?st') \<longleftrightarrow> 1 < length (nodes ?st')"
    using len stack' n0 lvl stk by (cases "stack st") auto
  have c6: "\<forall>j. 0 < j \<and> Suc j < length (nodes ?st') \<longrightarrow>
        char_start (nodes ?st' ! j) \<le> char_end (nodes ?st' ! j) \<and>
        char_end (nodes ?st' ! j) \<le> char_start (nodes ?st' ! Suc j)"
  proof (intro allI impI)
    fix j assume j: "0 < j \<and> Suc j < length (nodes ?st')"
    then have jn: "j < ?n" using len by simp
    show "char_start (nodes ?st' ! j) \<le> char_end (nodes ?st' ! j) \<and>
        char_end (nodes ?st' ! j) \<le> char_start (nodes ?st' ! Suc j)"
    proof (cases "Suc j < ?n")
      case True
      then have "j \<noteq> last (stack st)" using top by simp
      then show ?thesis
        using True jn j chain
        by (simp add: open_heading_start_old open_heading_end_old)
    next
      case False
      then have eq: "Suc j = ?n" using jn by simp
      then have n1: "1 < ?n" using j by simp
      have jtop: "j = last (stack st)" using top eq by simp
      have jlast: "nodes st ! j = last (nodes st)"
      proof -
        have "last (nodes st) = nodes st ! (?n - 1)"
          using n0' by (rule last_conv_nth)
        moreover have "?n - 1 = j" using eq by arith
        ultimately show ?thesis by simp
      qed
      have e: "char_end (nodes ?st' ! j) = cp"
        using jn many n1 jtop by (simp add: open_heading_end_old cp)
      have s1: "char_start (nodes ?st' ! j) = char_start (last (nodes st))"
        using jn jlast by (simp add: open_heading_start_old)
      have "char_start (nodes ?st' ! ?n) = cp + length line + 1"
        using parent by (simp add: open_heading_start_new cp)
      then have s2: "char_start (nodes ?st' ! Suc j) = cp + length line + 1"
        using eq by simp
      show ?thesis
        using e s1 s2 newest n1 by simp
    qed
  qed
  have c7: "1 < length (nodes ?st') \<longrightarrow> char_start (last (nodes ?st')) \<le> cp + length line + 1"
    using len c1 parent by (simp add: last_conv_nth open_heading_start_new cp)
  have c8: "\<forall>j<length (nodes ?st'). sorted_wrt (<) (child_ids (nodes ?st' ! j)) \<and>
        (\<forall>c\<in>set (child_ids (nodes ?st' ! j)). j < c \<and> c < length (nodes ?st'))"
  proof (intro allI impI)
    fix j assume "j < length (nodes ?st')"
    then consider "j < ?n" | "j = ?n" using len by linarith
    then show "sorted_wrt (<) (child_ids (nodes ?st' ! j)) \<and>
        (\<forall>c\<in>set (child_ids (nodes ?st' ! j)). j < c \<and> c < length (nodes ?st'))"
    proof cases
      case 1
      from kids 1 have srt: "sorted_wrt (<) (child_ids (nodes st ! j))"
        and rng: "\<forall>c\<in>set (child_ids (nodes st ! j)). j < c \<and> c < ?n"
        by blast+
      show ?thesis
      proof (cases "j = ?parent")
        case True
        then have "child_ids (nodes ?st' ! j) = child_ids (nodes st ! j) @ [?n]"
          using 1 open_heading_children_old [of j st doc lines i line ttl lvl] by simp
        moreover have "sorted_wrt (<) (child_ids (nodes st ! j) @ [?n])"
          using srt rng by (simp add: sorted_wrt_append)
        ultimately show ?thesis
          using rng 1 len by auto
      next
        case False
        then have "child_ids (nodes ?st' ! j) = child_ids (nodes st ! j)"
          using 1 open_heading_children_old [of j st doc lines i line ttl lvl] by simp
        then show ?thesis
          using srt rng len by auto
      qed
    next
      case 2
      then show ?thesis
        using parent by (simp add: open_heading_children_new)
    qed
  qed
  show ?thesis
    unfolding store_inv_def store_shape_def by (intro conjI c1 c2 c3 c4 c5 c6 c7 c8)
qed

lemma store_inv_parse_line:
  assumes "store_inv st (char_pos lines i)"
  shows "store_inv (parse_line doc lines st (i, line)) (char_pos lines i + length line + 1)"
proof (cases "first_heading HEADING_PATTERNS line")
  case None
  then show ?thesis
    using store_inv_mono [OF assms] by (simp add: parse_line_def)
next
  case (Some a)
  obtain ttl lvl where a: "a = (ttl, lvl)" by (cases a)
  have "0 < lvl" using Some a heading_level_pos by simp
  then show ?thesis
    using store_inv_open_heading [OF assms refl] Some a by (simp add: parse_line_def)
qed

lemma char_pos_Suc:
  assumes "lines = pre @ x # xs"
  shows "char_pos lines (Suc (length pre)) = char_pos lines (length pre) + length x + 1"
  using assms by (simp add: char_pos_def)

lemma store_inv_lines:
  assumes "lines = pre @ xs" and "store_inv st (char_pos lines (length pre))"
  shows "store_inv (foldl (parse_line doc lines) st (List.enumerate (length pre) xs))
           (char_pos lines (length lines))"
  using assms
proof (induction xs arbitrary: pre st)
  case Nil
  then show ?case by simp
next
  case (Cons x xs)
  note p1 = Cons.prems(1) and p2 = Cons.prems(2)
  have "store_inv (parse_line doc lines st (length pre, x)) (char_pos lines (Suc (length pre)))"
    using store_inv_parse_line [OF p2, where doc = doc and line = x] char_pos_Suc [OF p1] by simp
  moreover have "lines = (pre @ [x]) @ xs"
    using Cons.prems(1) by simp
  ultimately show ?case
    using Cons.IH [of "pre @ [x]" "parse_line doc lines st (length pre, x)"] by simp
qed

lemma store_inv_init: "store_inv \<lparr>nodes = [root_node doc filename], stack = [0]\<rparr> p"
  by (simp add: store_inv_def store_shape_def root_node_def)

lemma close_last_nodes [simp]: "nodes (close_last doc st) = close_top doc st (length doc)"
  by (simp add: close_last_def)

lemma close_last_stack [simp]: "stack (close_last doc st) = stack st"
  by (simp add: close_last_def)

lemma close_top_end_older:
  assumes "last (stack st) = length (nodes st) - 1" and "Suc j < length (nodes st)"
  shows "char_end (close_top doc st cp ! j) = char_end (nodes st ! j)"
proof -
  have "j \<noteq> last (stack st)" using assms by arith
  then show ?thesis by (simp add: close_top_end)
qed

lemma close_top_last_start:
  assumes "nodes st \<noteq> []"
  shows "char_start (last (close_top doc st cp)) = char_start (last (nodes st))"
proof -
  have "close_top doc st cp \<noteq> []"
    using assms close_top_length [of doc st cp] by (metis length_0_conv)
  then show ?thesis
    using assms by (simp add: last_conv_nth)
qed

lemma store_shape_close_last:
  assumes "store_shape st"
  shows "store_shape (close_last doc st)"
proof -
  let ?st' = "close_last doc st"
  note s = assms [unfolded store_shape_def]
  note ne = s [THEN conjunct1]
    and stk = s [THEN conjunct2, THEN conjunct1]
    and bound = s [THEN conjunct2, THEN conjunct2, THEN conjunct1]
    and top = s [THEN conjunct2, THEN conjunct2, THEN conjunct2, THEN conjunct1]
    and many = s [THEN conjunct2, THEN conjunct2, THEN conjunct2, THEN conjunct2, THEN conjunct1]
    and chain = s [THEN conjunct2, THEN conjunct2, THEN conjunct2, THEN conjunct2, THEN conjunct2, THEN conjunct1]
    and kids = s [THEN conjunct2, THEN conjunct2, THEN conjunct2, THEN conjunct2, THEN conjunct2, THEN conjunct2]
  have g1: "nodes ?st' \<noteq> []"
    using ne close_top_length [of doc st "length doc"] by (metis close_last_nodes length_0_conv)
  have g2: "stack ?st' \<noteq> []"
    using stk by simp
  have g3: "\<forall>s\<in>set (stack ?st'). s < length (nodes ?st')"
    using bound by simp
  have g4: "last (stack ?st') = length (nodes ?st') - 1"
    using top by simp
  have g5: "1 < length (stack ?st') \<longleftrightarrow> 1 < length (nodes ?st')"
    using many by simp
  have g6: "\<forall>i. 0 < i \<and> Suc i < length (nodes ?st') \<longrightarrow>
        char_start (nodes ?st' ! i) \<le> char_end (nodes ?st' ! i) \<and>
        char_end (nodes ?st' ! i) \<le> char_start (nodes ?st' ! Suc i)"
  proof (intro allI impI)
    fix i assume "0 < i \<and> Suc i < length (nodes ?st')"
    then have b: "0 < i \<and> Suc i < length (nodes st)" by simp
    with chain have c: "char_start (nodes st ! i) \<le> char_end (nodes st ! i) \<and>
        char_end (nodes st ! i) \<le> char_start (nodes st ! Suc i)" by blast
    have "char_end (nodes ?st' ! i) = char_end (nodes st ! i)"
      using b by (simp add: close_top_end_older [OF top])
    with c show "char_start (nodes ?st' ! i) \<le> char_end (nodes ?st' ! i) \<and>
        char_end (nodes ?st' ! i) \<le> char_start (nodes ?st' ! Suc i)" by simp
  qed
  have g7: "\<forall>i<length (nodes ?st'). sorted_wrt (<) (child_ids (nodes ?st' ! i)) \<and>
        (\<forall>c\<in>set (child_ids (nodes ?st' ! i)). i < c \<and> c < length (nodes ?st'))"
  proof (intro allI impI)
    fix i assume "i < length (nodes ?st')"
    then have "i < length (nodes st)" by simp
    with kids have a: "sorted_wrt (<) (child_ids (nodes st ! i)) \<and>
        (\<forall>c\<in>set (child_ids (nodes st ! i)). i < c \<and> c < length (nodes st))" by blast
    have e1: "child_ids (nodes ?st' ! i) = child_ids (nodes st ! i)" by simp
    have e2: "length (nodes ?st') = length (nodes st)" by simp
    show "sorted_wrt (<) (child_ids (nodes ?st' ! i)) \<and>
        (\<forall>c\<in>set (child_ids (nodes ?st' ! i)). i < c \<and> c < length (nodes ?st'))"
      unfolding e1 e2 by (rule a)
  qed
  show ?thesis
    unfolding store_shape_def by (intro conjI g1 g2 g3 g4 g5 g6 g7)
qed

lemma store_inv_close_last:
  assumes "store_inv st p"
  shows "store_inv (close_last doc st) p"
proof -
  from assms have shape: "store_shape st"
    and newest: "1 < length (nodes st) \<longrightarrow> char_start (last (nodes st)) \<le> p"
    unfolding store_inv_def by blast+
  have "nodes st \<noteq> []"
    using shape unfolding store_shape_def by blast
  then have "char_start (last (nodes (close_last doc st))) = char_start (last (nodes st))"
    by (simp add: close_top_last_start)
  then show ?thesis
    unfolding store_inv_def using store_shape_close_last [OF shape] newest by simp
qed

lemma store_inv_parse_store: "\<exists>p. store_inv (parse_store doc filename) p"
proof -
  have "store_inv (foldl (parse_line doc (split_lines [] doc)) \<lparr>nodes = [root_node doc filename], stack = [0]\<rparr>
          (List.enumerate (length ([]::ustring list)) (split_lines [] doc)))
        (char_pos (split_lines [] doc) (length (split_lines [] doc)))"
    by (rule store_inv_lines) (simp_all add: store_inv_init)
  then show ?thesis
    by (auto simp add: parse_store_def Let_def intro: store_inv_close_last)
qed

lemma chain_mono:
  fixes s e :: "nat \<Rightarrow> nat"
  assumes chain: "\<forall>i. 0 < i \<and> Suc i < n \<longrightarrow> s i \<le> e i \<and> e i \<le> s (Suc i)"
    and "0 < a" and "a < b" and "b < n"
  shows "e a \<le> s b"
  using assms(3,4)
proof (induction b)
  case 0
  then show ?case by simp
next
  case (Suc b)
  show ?case
  proof (cases "a = b")
    case True
    then show ?thesis
      using chain assms(2) Suc.prems by simp
  next
    case False
    then have ab: "a < b" using Suc.prems by simp
    then have "e a \<le> s b" using Suc.IH Suc.prems by simp
    moreover have "s b \<le> e b \<and> e b \<le> s (Suc b)"
      using chain assms(2) ab Suc.prems by simp
    ultimately show ?thesis by simp
  qed
qed

lemma info_to_tree: "info (to_tree ns i) = node_fields.truncate (ns ! i)"
  by (subst to_tree.simps) simp

lemma children_to_tree:
  "children (to_tree ns i) = map (to_tree ns) (filter (\<lambda>c. i < c \<and> c < length ns) (child_ids (ns ! i)))"
  by (subst to_tree.simps) simp

lemma truncate_char_start [simp]: "char_start (node_fields.truncate r) = char_start r"
  by (simp add: node_fields.truncate_def)

lemma truncate_char_end [simp]: "char_end (node_fields.truncate r) = char_end r"
  by (simp add: node_fields.truncate_def)

lemma subtrees_unfold: "subtrees t = t # concat (map subtrees (children t))"
  by (cases t) simp

lemma subtrees_to_tree:
  "t \<in> set (subtrees (to_tree ns i)) \<Longrightarrow> \<exists>j. t = to_tree ns j \<and> (j = i \<or> j < length ns)"
proof (induction ns i arbitrary: t rule: to_tree.induct)
  case (1 ns i)
  let ?cs = "filter (\<lambda>c. i < c \<and> c < length ns) (child_ids (ns ! i))"
  have "set (subtrees (to_tree ns i)) = insert (to_tree ns i) (\<Union>c\<in>set ?cs. set (subtrees (to_tree ns c)))"
    by (subst subtrees_unfold) (simp add: children_to_tree)
  with "1.prems" consider "t = to_tree ns i" | c where "c \<in> set ?cs" "t \<in> set (subtrees (to_tree ns c))"
    by auto
  then show ?case
  proof cases
    case 1
    then show ?thesis by blast
  next
    case 2
    from "1.IH" [OF 2(1) 2(2)] obtain j where "t = to_tree ns j" "j = c \<or> j < length ns"
      by blast
    moreover have "c < length ns" using 2(1) by simp
    ultimately show ?thesis by blast
  qed
qed

text \<open>
  In a store the parser produced, every child was created after its parent, so reading
  the tree off the store follows every child reference.
\<close>

lemma parse_store_children_forward:
  assumes "i < length (nodes (parse_store doc filename))"
  shows "filter (\<lambda>c. i < c \<and> c < length (nodes (parse_store doc filename)))
           (child_ids (nodes (parse_store doc filename) ! i))
         = child_ids (nodes (parse_store doc filename) ! i)"
proof -
  obtain p where "store_inv (parse_store doc filename) p"
    using store_inv_parse_store by blast
  then have shape: "store_shape (parse_store doc filename)"
    by (simp add: store_inv_def)
  note kids = shape [unfolded store_shape_def, THEN conjunct2, THEN conjunct2, THEN conjunct2,
    THEN conjunct2, THEN conjunct2, THEN conjunct2]
  from kids assms have "\<forall>c\<in>set (child_ids (nodes (parse_store doc filename) ! i)).
      i < c \<and> c < length (nodes (parse_store doc filename))"
    by blast
  then show ?thesis
    by (simp only: filter_id_conv)
qed

text \<open>
  Claim C1, as amended.  In the tree that \<^verbatim>\<open>parse_markdown\<close> returns, the children of every
  node are ordered and do not overlap: a child's \<open>char_end\<close> is at most the
  \<open>char_start\<close> of every later sibling.  They do not cover the parent's range: the range
  of a node is its own body, from the end of its heading line to the start of the next
  heading line of any depth.
\<close>

theorem parse_markdown_siblings_ordered:
  "\<forall>t\<in>set (subtrees (parse_markdown doc filename)).
     sorted_wrt (\<lambda>a b. char_end (info a) \<le> char_start (info b)) (children t)"
proof
  fix t assume t: "t \<in> set (subtrees (parse_markdown doc filename))"
  let ?ns = "nodes (parse_store doc filename)"
  obtain p where "store_inv (parse_store doc filename) p"
    using store_inv_parse_store by blast
  then have shape: "store_shape (parse_store doc filename)"
    by (simp add: store_inv_def)
  note s = shape [unfolded store_shape_def]
  note ne = s [THEN conjunct1]
    and chain = s [THEN conjunct2, THEN conjunct2, THEN conjunct2, THEN conjunct2, THEN conjunct2, THEN conjunct1]
    and kids = s [THEN conjunct2, THEN conjunct2, THEN conjunct2, THEN conjunct2, THEN conjunct2, THEN conjunct2]
  from t obtain j where tj: "t = to_tree ?ns j" and "j = 0 \<or> j < length ?ns"
    unfolding parse_markdown_def using subtrees_to_tree by blast
  then have j: "j < length ?ns" using ne by auto
  let ?cs = "filter (\<lambda>c. j < c \<and> c < length ?ns) (child_ids (?ns ! j))"
  from kids j have "sorted_wrt (<) (child_ids (?ns ! j))"
    by blast
  then have srt: "sorted_wrt (<) ?cs"
    by (rule sorted_wrt_filter)
  have "sorted_wrt (\<lambda>a b. char_end (?ns ! a) \<le> char_start (?ns ! b)) ?cs"
  proof (rule sorted_wrt_mono_rel [OF _ srt])
    fix a b assume "a \<in> set ?cs" "b \<in> set ?cs" "a < b"
    then have "0 < a" "a < b" "b < length ?ns" by auto
    with chain show "char_end (?ns ! a) \<le> char_start (?ns ! b)"
      by (rule chain_mono [where s = "\<lambda>i. char_start (?ns ! i)" and e = "\<lambda>i. char_end (?ns ! i)"])
  qed
  then show "sorted_wrt (\<lambda>a b. char_end (info a) \<le> char_start (info b)) (children t)"
    unfolding tj children_to_tree by (simp add: sorted_wrt_map info_to_tree)
qed

section \<open>Concrete runs\<close>

lemma replicate_numeral: "replicate (numeral k) x = x # replicate (pred_numeral k) x"
  by (simp add: numeral_eq_Suc)

lemmas split_eval =
  smart_split_def run_paragraphs_def add_para_def add_short_para_def add_sentence_def
  emit_with_def overlap_text_def flush_def init_split_def strip_def split_sentences_def
  is_sentence_end_def is_space_def NL_def Let_def ustr_def

lemmas parse_eval =
  parse_markdown_def parse_store_def parse_line_def open_heading_def close_top_def
  close_last_def root_node_def re_match_heading_def HEADING_PATTERNS_def char_pos_def
  slice_def strip_def is_space_def NL_def HASH_def Let_def to_tree.simps
  node_fields.truncate_def ustr_def default_title_def replicate_numeral

text \<open>
  Claim C4 fails as stated: with \<open>chunk_size = 10\<close> and \<open>overlap = 2\<close> the text
  \<^verbatim>\<open>"ab\n\nccccccccc"\<close> gives the chunks \<^verbatim>\<open>"ab"\<close> and \<^verbatim>\<open>"abccccccccc"\<close>; the first is
  not the last chunk and is shorter than a minimum of 5.
\<close>

theorem smart_split_min_size_counterexample:
  "\<not> min_size_respected 5 (smart_split (ustr ''ab'' @ [NL, NL] @ ustr ''ccccccccc'') 10 2)"
  by (simp add: min_size_respected_def split_eval)

theorem smart_split_emission_rule_witness:
  "foldl (add_sentence 10 2) (foldl (add_para 10 2) init_split [ustr ''ab'']) []
     = \<lparr>chunks = [], current_chunk = ustr ''ab'', current_size = 2\<rparr> \<and>
   chunks (add_short_para 10 2
      (foldl (add_sentence 10 2) (foldl (add_para 10 2) init_split [ustr ''ab'']) []) (ustr ''ccccccccc''))
     = [ustr ''ab'']"
proof -
  have e: "foldl (add_sentence 10 2) (foldl (add_para 10 2) init_split [ustr ''ab'']) []
     = \<lparr>chunks = [], current_chunk = ustr ''ab'', current_size = 2\<rparr>"
    by (simp add: split_eval)
  from smart_split_emission_rule [OF refl, of 10 2 "[ustr ''ab'']" "[]" "[]" "ustr ''ccccccccc''"]
  show ?thesis by (simp add: e) (simp add: split_eval)
qed

text \<open>
  Claim C7 fails as stated.  \<^verbatim>\<open>"a\n\n\nb"\<close> gives the single chunk \<^verbatim>\<open>"a\n\nb"\<close>, which has
  no overlap prefix and is not the input: the separator is normalised.  \<^verbatim>\<open>" a"\<close> gives
  \<^verbatim>\<open>"a"\<close>: whitespace around a paragraph is lost.  Without overlap, \<^verbatim>\<open>"ab\n\ncccccccc"\<close>
  with \<open>chunk_size = 8\<close> gives \<^verbatim>\<open>"ab"\<close> and \<^verbatim>\<open>"cccccccc"\<close>, and \<^verbatim>\<open>"aaaa\nbb"\<close> with
  \<open>chunk_size = 3\<close> gives \<^verbatim>\<open>"aaaa"\<close> and \<^verbatim>\<open>"bb"\<close>: the separator and the newline at the
  place where a chunk ends are lost.  With \<open>chunk_size = 2\<close> and \<open>overlap = 1\<close> the
  texts \<^verbatim>\<open>"a\naa"\<close> and \<^verbatim>\<open>"a\n\na"\<close> give the same chunks \<^verbatim>\<open>"a"\<close> and \<^verbatim>\<open>"aa"\<close>: the
  chunks alone do not determine the text, whatever is trimmed from them.  And of
  \<^verbatim>\<open>"intro\n# A\nbody"\<close> the strategy \<^verbatim>\<open>get_all_chunks\<close> returns the one chunk \<^verbatim>\<open>"body"\<close>:
  the heading line and the text before the first heading are in no chunk.
\<close>

theorem smart_split_reconstruction_counterexample:
  "length (smart_split (ustr ''a'' @ [NL, NL, NL] @ ustr ''b'') 400 50) = 1 \<and>
   concat (smart_split (ustr ''a'' @ [NL, NL, NL] @ ustr ''b'') 400 50) \<noteq> ustr ''a'' @ [NL, NL, NL] @ ustr ''b'' \<and>
   smart_split ([32] @ ustr ''a'') 400 50 = [ustr ''a''] \<and>
   smart_split (ustr ''ab'' @ [NL, NL] @ ustr ''cccccccc'') 8 0 = [ustr ''ab'', ustr ''cccccccc''] \<and>
   smart_split (ustr ''aaaa'' @ [NL] @ ustr ''bb'') 3 0 = [ustr ''aaaa'', ustr ''bb''] \<and>
   smart_split (ustr ''a'' @ [NL] @ ustr ''aa'') 2 1 = [ustr ''a'', ustr ''aa''] \<and>
   smart_split (ustr ''a'' @ [NL, NL] @ ustr ''a'') 2 1 = [ustr ''a'', ustr ''aa''] \<and>
   map chunk_content (get_all_chunks
      (parse_markdown (ustr ''intro'' @ [NL] @ ustr ''# A'' @ [NL] @ ustr ''body'') []) 400 50) = [ustr ''body'']"
proof -
  have e1: "smart_split (ustr ''a'' @ [NL, NL, NL] @ ustr ''b'') 400 50 = [ustr ''a'' @ [NL, NL] @ ustr ''b'']"
    by (simp add: split_eval)
  have e2: "smart_split ([32] @ ustr ''a'') 400 50 = [ustr ''a'']"
    by (simp add: split_eval)
  have e3: "smart_split (ustr ''ab'' @ [NL, NL] @ ustr ''cccccccc'') 8 0 = [ustr ''ab'', ustr ''cccccccc'']"
    by (simp add: split_eval)
  have e4: "smart_split (ustr ''aaaa'' @ [NL] @ ustr ''bb'') 3 0 = [ustr ''aaaa'', ustr ''bb'']"
    by (simp add: split_eval)
  have e5: "smart_split (ustr ''a'' @ [NL] @ ustr ''aa'') 2 1 = [ustr ''a'', ustr ''aa'']"
    by (simp add: split_eval)
  have e6: "smart_split (ustr ''a'' @ [NL, NL] @ ustr ''a'') 2 1 = [ustr ''a'', ustr ''aa'']"
    by (simp add: split_eval)
  have e7: "map chunk_content (get_all_chunks
      (parse_markdown (ustr ''intro'' @ [NL] @ ustr ''# A'' @ [NL] @ ustr ''body'') []) 400 50) = [ustr ''body'']"
    by (simp add: get_all_chunks_def node_chunk_def parse_eval split_eval)
  have e0: "length (smart_split (ustr ''a'' @ [NL, NL, NL] @ ustr ''b'') 400 50) = 1 \<and>
      concat (smart_split (ustr ''a'' @ [NL, NL, NL] @ ustr ''b'') 400 50) \<noteq> ustr ''a'' @ [NL, NL, NL] @ ustr ''b''"
    unfolding e1 by (simp add: ustr_def NL_def)
  from e0 e2 e3 e4 e5 e6 e7 show ?thesis
    by (intro conjI) simp_all
qed

theorem oversized_unit_emitted_whole_witness:
  "ustr ''aaaa'' @ [12290] @ ustr ''bb'' \<in> set (re_split_blank [] (ustr ''aaaa'' @ [12290] @ ustr ''bb'')) \<and>
   3 < int (length (strip (ustr ''aaaa'' @ [12290] @ ustr ''bb''))) \<and>
   ustr ''aaaa'' @ [12290] \<in> set (split_sentences (strip (ustr ''aaaa'' @ [12290] @ ustr ''bb''))) \<and>
   3 < int (length (ustr ''aaaa'' @ [12290])) \<and>
   strip (ustr ''aaaa'' @ [12290]) \<noteq> [] \<and>
   ustr ''aaaa'' @ [12290] \<in> set (smart_split (ustr ''aaaa'' @ [12290] @ ustr ''bb'') 3 0) \<and>
   (\<exists>c\<in>set (smart_split (ustr ''aaaa'' @ [12290] @ ustr ''bb'') 3 0). \<exists>pre.
       c = strip (pre @ ustr ''aaaa'' @ [12290]) \<and> int (length pre) \<le> max 0 0 \<and>
       suffix (strip (ustr ''aaaa'' @ [12290])) c)"
proof -
  have h1: "ustr ''aaaa'' @ [12290] @ ustr ''bb'' \<in> set (re_split_blank [] (ustr ''aaaa'' @ [12290] @ ustr ''bb''))"
    by (simp add: split_eval)
  have h2: "3 < int (length (strip (ustr ''aaaa'' @ [12290] @ ustr ''bb'')))"
    by (simp add: split_eval)
  have h3: "ustr ''aaaa'' @ [12290] \<in> set (split_sentences (strip (ustr ''aaaa'' @ [12290] @ ustr ''bb'')))"
    by (simp add: split_eval)
  have h4: "3 < int (length (ustr ''aaaa'' @ [12290]))"
    by (simp add: split_eval)
  have h5: "strip (ustr ''aaaa'' @ [12290]) \<noteq> []"
    by (simp add: split_eval)
  have h6: "(0::int) \<le> 0 \<and> \<not> is_space (hd (ustr ''aaaa'' @ [12290])) \<and>
      \<not> is_space (last (ustr ''aaaa'' @ [12290]))"
    by (simp add: split_eval)
  from oversized_unit_emitted_whole [OF h1 h2 h3 h4 h5, of 0]
  obtain c pre where c: "c \<in> set (smart_split (ustr ''aaaa'' @ [12290] @ ustr ''bb'') 3 0)"
    and c1: "c = strip (pre @ ustr ''aaaa'' @ [12290])"
    and c2: "int (length pre) \<le> max 0 0"
    and c3: "suffix (strip (ustr ''aaaa'' @ [12290])) c"
    and c4: "0 \<le> (0::int) \<and> \<not> is_space (hd (ustr ''aaaa'' @ [12290])) \<and>
      \<not> is_space (last (ustr ''aaaa'' @ [12290])) \<longrightarrow> c = ustr ''aaaa'' @ [12290]"
    by blast
  from c4 h6 have "c = ustr ''aaaa'' @ [12290]"
    by (rule mp)
  with c have c5: "ustr ''aaaa'' @ [12290] \<in> set (smart_split (ustr ''aaaa'' @ [12290] @ ustr ''bb'') 3 0)"
    by simp
  from c c1 c2 c3 have c6: "\<exists>c\<in>set (smart_split (ustr ''aaaa'' @ [12290] @ ustr ''bb'') 3 0). \<exists>pre.
       c = strip (pre @ ustr ''aaaa'' @ [12290]) \<and> int (length pre) \<le> max 0 0 \<and>
       suffix (strip (ustr ''aaaa'' @ [12290])) c"
    by blast
  from h1 h2 h3 h4 h5 c5 c6 show ?thesis
    by (intro conjI)
qed

text \<open>
  Claim C1 fails as stated: for \<^verbatim>\<open>"# A\nbody"\<close> the root has the range \<open>[0, 8)\<close> and its
  only child the range \<open>[4, 8)\<close>; the heading line is in no child's range.
\<close>

theorem children_cover_counterexample:
  "\<not> children_cover (parse_markdown (ustr ''# A'' @ [NL] @ ustr ''body'') [])"
  by (simp add: children_cover_def parse_eval atLeastLessThan_eq_iff)

theorem parse_markdown_siblings_ordered_witness:
  "parse_markdown (ustr ''# A'' @ [NL] @ ustr ''x'' @ [NL] @ ustr ''# B'' @ [NL] @ ustr ''y'') []
     \<in> set (subtrees (parse_markdown (ustr ''# A'' @ [NL] @ ustr ''x'' @ [NL] @ ustr ''# B'' @ [NL] @ ustr ''y'') [])) \<and>
   map (\<lambda>c. (char_start (info c), char_end (info c)))
     (children (parse_markdown (ustr ''# A'' @ [NL] @ ustr ''x'' @ [NL] @ ustr ''# B'' @ [NL] @ ustr ''y'') []))
     = [(4, 6), (10, 11)] \<and>
   sorted_wrt (\<lambda>a b. char_end (info a) \<le> char_start (info b))
     (children (parse_markdown (ustr ''# A'' @ [NL] @ ustr ''x'' @ [NL] @ ustr ''# B'' @ [NL] @ ustr ''y'') []))"
proof -
  have m: "parse_markdown (ustr ''# A'' @ [NL] @ ustr ''x'' @ [NL] @ ustr ''# B'' @ [NL] @ ustr ''y'') []
     \<in> set (subtrees (parse_markdown (ustr ''# A'' @ [NL] @ ustr ''x'' @ [NL] @ ustr ''# B'' @ [NL] @ ustr ''y'') []))"
    by (subst subtrees_unfold) simp
  have e: "map (\<lambda>c. (char_start (info c), char_end (info c)))
     (children (parse_markdown (ustr ''# A'' @ [NL] @ ustr ''x'' @ [NL] @ ustr ''# B'' @ [NL] @ ustr ''y'') []))
     = [(4, 6), (10, 11)]"
    by (simp add: parse_eval)
  from parse_markdown_siblings_ordered
    [of "ustr ''# A'' @ [NL] @ ustr ''x'' @ [NL] @ ustr ''# B'' @ [NL] @ ustr ''y''" "[]"] m e
  show ?thesis by blast
qed

text \<open>
  Claim C3 at the text \<^verbatim>\<open>"# A\n### B\n### D"\<close>.  When the second depth-3 heading is
  read the stack is root, A, B; its length 3 is not larger than the depth 3, so nothing is
  popped, although the node B on top has depth 3, and D becomes a child of B.
\<close>

theorem skipped_level_nests_equal_depths:
  "parse_markdown (ustr ''# A'' @ [NL] @ ustr ''### B'' @ [NL] @ ustr ''### D'') [] =
   DocNode \<lparr>node_id = 0, level = 0, index = 0, title = default_title, content = [], char_start = 0, char_end = 15\<rparr>
    [DocNode \<lparr>node_id = 1, level = 1, index = 0, title = ustr ''A'', content = [], char_start = 4, char_end = 4\<rparr>
      [DocNode \<lparr>node_id = 2, level = 3, index = 0, title = ustr ''B'', content = [], char_start = 10, char_end = 10\<rparr>
        [DocNode \<lparr>node_id = 3, level = 3, index = 0, title = ustr ''D'', content = [], char_start = 16, char_end = 15\<rparr> []]]]"
  by (simp add: parse_eval)

lemma nodes_of_traverse:
  "c \<in> set (traverse cs ov t path) \<Longrightarrow>
     \<exists>n\<in>set (nodes_of t). strip (content n) \<noteq> [] \<and>
        chunk_content c \<in> set (smart_split (content n) cs ov) \<and>
        chunk_node_id c = node_id n \<and> chunk_level c = level n \<and>
        chunk_char_start c = char_start n \<and> chunk_char_end c = char_end n"
proof (induction cs ov t path rule: traverse.induct)
  case (1 cs ov node kids path)
  let ?path = "path @ [title node]"
  from "1.prems" consider
      (own) "content node \<noteq> []" "strip (content node) \<noteq> []"
        "c \<in> set (map (node_chunk node ?path) (smart_split (content node) cs ov))"
    | (kid) k where "k \<in> set kids" "c \<in> set (traverse cs ov k ?path)"
    by (auto simp add: Let_def split: if_splits)
  then show ?case
  proof cases
    case own
    then show ?thesis by (auto simp add: node_chunk_def)
  next
    case kid
    from "1.IH" [OF refl kid(1) kid(2)] kid(1) show ?thesis by auto
  qed
qed

text \<open>
  Claim C10.  Every chunk that \<^verbatim>\<open>get_all_chunks\<close> returns was cut from the body of a node
  of the tree whose body has a visible character, carries that node's id and depth, and
  records that node's \<open>char_start\<close> and \<open>char_end\<close>: all chunks of a node carry the
  node's whole range, and the offsets say nothing about the chunk's place in the node.
\<close>

theorem chunks_carry_node_range:
  "\<forall>c\<in>set (get_all_chunks tree cs ov).
     \<exists>n\<in>set (nodes_of tree). strip (content n) \<noteq> [] \<and>
        chunk_content c \<in> set (smart_split (content n) cs ov) \<and>
        chunk_node_id c = node_id n \<and> chunk_level c = level n \<and>
        chunk_char_start c = char_start n \<and> chunk_char_end c = char_end n"
  unfolding get_all_chunks_def using nodes_of_traverse by blast

theorem chunks_carry_node_range_witness:
  "\<lparr>chunk_content = ustr ''ab'', chunk_node_id = 7, chunk_node_path = ustr ''A'', chunk_level = 1,
     chunk_char_start = 3, chunk_char_end = 16\<rparr>
     \<in> set (get_all_chunks
         (DocNode \<lparr>node_id = 7, level = 1, index = 0, title = ustr ''A'',
                   content = ustr ''ab'' @ [NL, NL] @ ustr ''ccccccccc'', char_start = 3, char_end = 16\<rparr> []) 10 2) \<and>
   (\<exists>n\<in>set (nodes_of
         (DocNode \<lparr>node_id = 7, level = 1, index = 0, title = ustr ''A'',
                   content = ustr ''ab'' @ [NL, NL] @ ustr ''ccccccccc'', char_start = 3, char_end = 16\<rparr> [])).
      strip (content n) \<noteq> [] \<and>
      ustr ''ab'' \<in> set (smart_split (content n) 10 2) \<and>
      node_id n = 7 \<and> level n = 1 \<and> char_start n = 3 \<and> char_end n = 16)"
proof -
  have m: "\<lparr>chunk_content = ustr ''ab'', chunk_node_id = 7, chunk_node_path = ustr ''A'', chunk_level = 1,
     chunk_char_start = 3, chunk_char_end = 16\<rparr>
     \<in> set (get_all_chunks
         (DocNode \<lparr>node_id = 7, level = 1, index = 0, title = ustr ''A'',
                   content = ustr ''ab'' @ [NL, NL] @ ustr ''ccccccccc'', char_start = 3, char_end = 16\<rparr> []) 10 2)"
    by (simp add: get_all_chunks_def node_chunk_def split_eval)
  from chunks_carry_node_range
    [of "DocNode \<lparr>node_id = 7, level = 1, index = 0, title = ustr ''A'',
                   content = ustr ''ab'' @ [NL, NL] @ ustr ''ccccccccc'', char_start = 3, char_end = 16\<rparr> []" 10 2] m
  show ?thesis by fastforce
qed

subsection \<open>What the chunks keep of the text\<close>

lemma blank_pieces:
  assumes "strip doc = []"
  shows "\<forall>p\<in>set (re_split_blank [] doc). strip p = []"
proof -
  have "visible (concat (re_split_blank [] doc)) = []"
    using assms by (simp add: visible_re_split_blank strip_empty_iff)
  then show ?thesis
    by (auto simp add: strip_empty_iff visible_def filter_empty_conv)
qed

lemma add_paras_blank: "\<forall>p\<in>set ps. strip p = [] \<Longrightarrow> foldl (add_para cs ov) st ps = st"
  by (induction ps arbitrary: st) (simp_all add: add_para_blank)

lemma smart_split_blank: "strip doc = [] \<Longrightarrow> smart_split doc cs ov = []"
  using add_paras_blank [OF blank_pieces, of doc cs ov init_split]
  by (simp add: smart_split_def run_paragraphs_def flush_def init_split_def strip_def)

lemma concat_map_flat:
  "concat (map (\<lambda>k. concat (map f (g k))) ks) = concat (map f (concat (map g ks)))"
  by (induction ks) simp_all

lemma traverse_contents:
  "map chunk_content (traverse cs ov t path) =
     concat (map (\<lambda>n. smart_split (content n) cs ov) (nodes_of t))"
proof (induction cs ov t path rule: traverse.induct)
  case (1 cs ov node kids path)
  have own: "map chunk_content
      (if content node \<noteq> [] \<and> strip (content node) \<noteq> []
       then map (node_chunk node (path @ [title node])) (smart_split (content node) cs ov)
       else []) = smart_split (content node) cs ov"
    by (auto simp add: node_chunk_def comp_def smart_split_blank strip_def)
  have kids: "map (\<lambda>k. map chunk_content (traverse cs ov k (path @ [title node]))) kids =
      map (\<lambda>k. concat (map (\<lambda>n. smart_split (content n) cs ov) (nodes_of k))) kids"
    using "1.IH" by simp
  have "map chunk_content (traverse cs ov (DocNode node kids) path) =
      smart_split (content node) cs ov @
      concat (map (\<lambda>k. map chunk_content (traverse cs ov k (path @ [title node]))) kids)"
    using own by (simp add: Let_def map_concat comp_def del: map_eq_conv)
  also have "\<dots> = concat (map (\<lambda>n. smart_split (content n) cs ov) (nodes_of (DocNode node kids)))"
    unfolding kids by (simp add: concat_map_flat)
  finally show ?case .
qed

text \<open>
  Claim C7, as amended.  The chunks of \<^verbatim>\<open>_smart_split\<close> are the stripped buffers, and every
  buffer is the overlap text taken from the end of the buffer before it (nothing for the
  first one, nothing at all when \<open>overlap\<close> is not positive) followed by its body.  The
  bodies, put together in order, are character for character the paragraphs of the input
  in order, two consecutive paragraphs being joined by a blank line \<^verbatim>\<open>"\n\n"\<close> or by
  nothing.  The
  paragraphs are the stripped, non-empty pieces of the input, and the input is these
  pieces with the gaps between them, each gap a non-empty run of whitespace.  So what
  the bodies lose of the input is whitespace between and around paragraphs, and what
  the chunks lose of the buffers is whitespace at their two ends.  The overlap prefix
  is a part of the buffer, not of the chunk: it cannot be read off the chunks.

  \<^verbatim>\<open>get_all_chunks\<close>, the one strategy of the program, returns the chunks of the bodies of
  the nodes of the tree, node after node in the order of the traversal.
\<close>

theorem smart_split_reconstructs_paragraphs:
  "(\<exists>bodies seps gaps.
      smart_split doc cs ov = map strip (buffers ov [] bodies) \<and>
      concat bodies = join_paragraphs ([] # seps) (paragraphs doc) \<and>
      length seps = length (paragraphs doc) - 1 \<and>
      list_all (\<lambda>s. s = [] \<or> s = [NL, NL]) seps \<and>
      rejoin (re_split_blank [] doc) gaps = doc \<and>
      length gaps + 1 = length (re_split_blank [] doc) \<and>
      list_all (\<lambda>g. g \<noteq> [] \<and> list_all is_space g) gaps) \<and>
   map chunk_content (get_all_chunks tree cs ov) =
     concat (map (\<lambda>n. smart_split (content n) cs ov) (nodes_of tree))"
proof -
  from smart_split_bodies [of doc cs ov]
  obtain bodies seps where
    b: "smart_split doc cs ov = map strip (buffers ov [] bodies)"
      "concat bodies = join_paragraphs ([] # seps) (paragraphs doc)"
      "length seps = length (paragraphs doc) - 1"
      "list_all (\<lambda>s. s = [] \<or> s = [NL, NL]) seps"
    by blast
  from re_split_blank_rejoin [of "[]" doc]
  obtain gaps where
    g: "rejoin (re_split_blank [] doc) gaps = doc"
      "length gaps + 1 = length (re_split_blank [] doc)"
      "list_all (\<lambda>g. g \<noteq> [] \<and> list_all is_space g) gaps"
    by auto
  from b g have "\<exists>bodies seps gaps.
      smart_split doc cs ov = map strip (buffers ov [] bodies) \<and>
      concat bodies = join_paragraphs ([] # seps) (paragraphs doc) \<and>
      length seps = length (paragraphs doc) - 1 \<and>
      list_all (\<lambda>s. s = [] \<or> s = [NL, NL]) seps \<and>
      rejoin (re_split_blank [] doc) gaps = doc \<and>
      length gaps + 1 = length (re_split_blank [] doc) \<and>
      list_all (\<lambda>g. g \<noteq> [] \<and> list_all is_space g) gaps"
    by blast
  then show ?thesis
    by (simp add: get_all_chunks_def traverse_contents)
qed


section \<open>Properties of the hybrid retrieval\<close>

lemma sorted_sort_reverse: "sorted_wrt (\<lambda>a b. key b \<le> key a) (sort_reverse key xs)"
proof -
  have "sorted (map key (sort_key key (rev xs)))"
    by (rule sorted_sort_key)
  then have "sorted_wrt (\<lambda>a b. key a \<le> key b) (sort_key key (rev xs))"
    by (simp add: sorted_map)
  then show ?thesis
    by (simp add: sort_reverse_def sorted_wrt_rev)
qed

lemma sort_reverse_stable:
  "filter (\<lambda>y. key y = k) (sort_reverse key xs) = filter (\<lambda>y. key y = k) xs"
proof -
  have "filter (\<lambda>y. key y = k) (sort_key key (rev xs)) = filter (\<lambda>y. key y = k) (rev xs)"
    by (rule sort_key_stable)
  then show ?thesis
    by (simp add: sort_reverse_def rev_filter [symmetric])
qed

lemma set_sort_reverse [simp]: "set (sort_reverse key xs) = set xs"
  by (simp add: sort_reverse_def)

lemma filter_take_prefix: "prefix (filter P (take n xs)) (filter P xs)"
proof -
  have "filter P xs = filter P (take n xs) @ filter P (drop n xs)"
    by (metis append_take_drop_id filter_append)
  then show ?thesis
    by (simp add: prefix_def)
qed

lemma hybrid_search_Inr:
  assumes "hybrid_search db query q top_k min_score document_ids = Inr rs"
  shows "rs = take (nat top_k) (sort_reverse r_score
           (map (fuse (node_scores db q)) (fetch_chunks db q min_score (nat (top_k * 2)))))"
  using assms by (simp add: hybrid_search_def Let_def split: if_splits)

text \<open>
  Claim C8, as amended.  The results are in descending order of their final score, and
  results with equal final score keep the order in which the chunk query returned them
  (nearest first).  The chunk index is not read by the query and takes no part.
\<close>

theorem hybrid_search_order:
  assumes "hybrid_search db query q top_k min_score document_ids = Inr rs"
  shows "sorted_wrt (\<lambda>a b. r_score b \<le> r_score a) rs \<and>
         (\<forall>s. prefix (filter (\<lambda>r. r_score r = s) rs)
                (filter (\<lambda>r. r_score r = s)
                   (map (fuse (node_scores db q)) (fetch_chunks db q min_score (nat (top_k * 2))))))"
proof -
  let ?fused = "map (fuse (node_scores db q)) (fetch_chunks db q min_score (nat (top_k * 2)))"
  have rs: "rs = take (nat top_k) (sort_reverse r_score ?fused)"
    using assms by (rule hybrid_search_Inr)
  have "sorted_wrt (\<lambda>a b. r_score b \<le> r_score a) rs"
    unfolding rs by (intro sorted_wrt_take sorted_sort_reverse)
  moreover have "prefix (filter (\<lambda>r. r_score r = s) rs) (filter (\<lambda>r. r_score r = s) ?fused)" for s
    unfolding rs using filter_take_prefix [of "\<lambda>r. r_score r = s" "nat top_k" "sort_reverse r_score ?fused"]
    by (simp add: sort_reverse_stable)
  ultimately show ?thesis by blast
qed

lemma fuse_fields:
  "r_chunk_id (fuse sc h) = h_chunk_id h"
  "r_vector_score (fuse sc h) = h_vector_score h"
  "r_node_boost (fuse sc h) = (case h_node_id h of None \<Rightarrow> 0 | Some n \<Rightarrow> (case sc n of None \<Rightarrow> 0 | Some s \<Rightarrow> s * (3 / 10)))"
  "r_score (fuse sc h) = min (r_vector_score (fuse sc h) + r_node_boost (fuse sc h)) 1"
  by (simp_all add: fuse_def Let_def)

lemma dot_Cons: "dot (x # a) (y # b) = x * y + dot a b"
  by (simp add: dot_def)

lemma dot_Nil: "dot [] b = 0" "dot a [] = 0"
  by (simp_all add: dot_def)

lemma dot_self_nonneg: "0 \<le> dot a a"
  by (induction a) (simp_all add: dot_Cons dot_Nil)

lemma cross_bound:
  fixes x y s A B :: real
  assumes "s\<^sup>2 \<le> A * B" and "0 \<le> A" and "0 \<le> B"
  shows "2 * x * y * s \<le> x\<^sup>2 * B + y\<^sup>2 * A"
proof -
  have "(2 * x * y * s)\<^sup>2 = (4 * x\<^sup>2 * y\<^sup>2) * s\<^sup>2"
    by (simp add: power2_eq_square)
  also have "\<dots> \<le> (4 * x\<^sup>2 * y\<^sup>2) * (A * B)"
    using assms(1) by (intro mult_left_mono) simp_all
  also have "\<dots> \<le> (x\<^sup>2 * B + y\<^sup>2 * A)\<^sup>2"
  proof -
    have "0 \<le> (x\<^sup>2 * B - y\<^sup>2 * A)\<^sup>2" by simp
    also have "\<dots> = (x\<^sup>2 * B + y\<^sup>2 * A)\<^sup>2 - (4 * x\<^sup>2 * y\<^sup>2) * (A * B)"
      by (simp add: power2_eq_square algebra_simps)
    finally show ?thesis by simp
  qed
  finally have "(2 * x * y * s)\<^sup>2 \<le> (x\<^sup>2 * B + y\<^sup>2 * A)\<^sup>2" .
  moreover have "0 \<le> x\<^sup>2 * B + y\<^sup>2 * A"
    using assms(2,3) by simp
  ultimately show ?thesis
    by (rule power2_le_imp_le)
qed

lemma dot_Cauchy_Schwarz: "(dot a b)\<^sup>2 \<le> dot a a * dot b b"
proof (induction a arbitrary: b)
  case Nil
  show ?case by (simp add: dot_Nil)
next
  case (Cons x a)
  show ?case
  proof (cases b)
    case Nil
    then show ?thesis by (simp add: dot_Nil)
  next
    case (Cons y b')
    have "(x * y + dot a b')\<^sup>2 = x\<^sup>2 * y\<^sup>2 + 2 * x * y * dot a b' + (dot a b')\<^sup>2"
      by (simp add: power2_eq_square algebra_simps)
    also have "\<dots> \<le> x\<^sup>2 * y\<^sup>2 + (x\<^sup>2 * dot b' b' + y\<^sup>2 * dot a a) + dot a a * dot b' b'"
      using cross_bound [OF Cons.IH [of b'] dot_self_nonneg dot_self_nonneg, of x y] Cons.IH [of b']
      by simp
    also have "\<dots> = (x * x + dot a a) * (y * y + dot b' b')"
      by (simp add: power2_eq_square algebra_simps)
    finally show ?thesis
      unfolding Cons by (simp add: dot_Cons)
  qed
qed

lemma cosine_distance_nonneg: "0 \<le> cosine_distance a b"
proof -
  let ?d = "sqrt (dot a a) * sqrt (dot b b)"
  have d: "0 \<le> ?d"
    by (simp add: dot_self_nonneg)
  have "dot a b \<le> \<bar>dot a b\<bar>" by simp
  also have "\<dots> = sqrt ((dot a b)\<^sup>2)" by simp
  also have "\<dots> \<le> sqrt (dot a a * dot b b)"
    using dot_Cauchy_Schwarz [of a b] by (rule real_sqrt_le_mono)
  also have "\<dots> = ?d"
    by (rule real_sqrt_mult)
  finally have le: "dot a b \<le> ?d" .
  have "dot a b / ?d \<le> 1"
  proof (cases "?d = 0")
    case True
    show ?thesis unfolding True by simp
  next
    case False
    have "0 < ?d"
    proof (rule ccontr)
      assume "\<not> 0 < ?d"
      with d have "?d = 0" by (rule_tac antisym) (simp_all only: not_less)
      with False show False by (rule notE)
    qed
    then show ?thesis using le by (simp add: divide_le_eq)
  qed
  then show ?thesis
    by (simp add: cosine_distance_def)
qed

lemma to_hit_vector_score:
  "h_vector_score (to_hit q row) = 1 - (case row of (ce, dc, dn) \<Rightarrow> cosine_distance (er_embedding ce) q)"
  by (cases row) (simp add: to_hit_def)

lemma fetch_chunks_score_le: "h \<in> set (fetch_chunks db q min_score limit) \<Longrightarrow> h_vector_score h \<le> 1"
  using cosine_distance_nonneg by (auto simp add: fetch_chunks_def to_hit_def)

lemma fetch_chunks_nearest_first:
  "sorted_wrt (\<lambda>a b. h_vector_score b \<le> h_vector_score a) (fetch_chunks db q min_score limit)"
proof -
  let ?key = "\<lambda>(ce :: embedding_row, dc :: chunk_row, dn :: node_row option). cosine_distance (er_embedding ce) q"
  let ?rows = "filter (\<lambda>(ce, dc, dn). min_score \<le> 1 - cosine_distance (er_embedding ce) q) (joined_rows db)"
  have "sorted (map ?key (sort_key ?key ?rows))"
    by (rule sorted_sort_key)
  then have "sorted_wrt (\<lambda>a b. ?key a \<le> ?key b) (sort_key ?key ?rows)"
    by (simp add: sorted_map)
  then have "sorted_wrt (\<lambda>a b. ?key a \<le> ?key b) (take limit (sort_key ?key ?rows))"
    by (rule sorted_wrt_take)
  then show ?thesis
    by (simp add: fetch_chunks_def sorted_wrt_map to_hit_vector_score case_prod_beta)
qed

lemma exact_match_rank:
  assumes desc: "sorted_wrt (\<lambda>a b. v b \<le> v a) xs"
    and vle: "\<forall>x\<in>set xs. v x \<le> (1::real)"
    and sle: "\<forall>x\<in>set xs. s x \<le> (1::real)"
    and mem: "r \<in> set (take k (sort_reverse s xs))"
    and v1: "v r = 1" and s1: "s r = 1"
  shows "\<exists>pre post. take k (sort_reverse s xs) = pre @ r # post \<and>
           list_all (\<lambda>y. v y = 1 \<and> s y = 1) pre"
proof -
  let ?ys = "sort_reverse s xs"
  from mem obtain pre post where tk: "take k ?ys = pre @ r # post"
    by (auto simp add: in_set_conv_decomp)
  have "?ys = take k ?ys @ drop k ?ys" by simp
  then have ys: "?ys = pre @ r # (post @ drop k ?ys)"
    unfolding tk by simp
  have "sorted_wrt (\<lambda>a b. s b \<le> s a) (pre @ r # (post @ drop k ?ys))"
    using sorted_sort_reverse [of s xs] unfolding ys [symmetric] .
  then have ge: "\<forall>p\<in>set pre. s r \<le> s p"
    by (simp add: sorted_wrt_append)
  have "set pre \<subseteq> set ?ys"
    using ys by (metis Un_upper1 set_append)
  then have pre_xs: "set pre \<subseteq> set xs"
    by simp
  have sp: "\<forall>p\<in>set pre. s p = 1"
  proof
    fix p assume p: "p \<in> set pre"
    with ge have "1 \<le> s p" by (simp add: s1)
    moreover have "s p \<le> 1" using p pre_xs sle by blast
    ultimately show "s p = 1" by simp
  qed
  then have fp: "filter (\<lambda>y. s y = 1) pre = pre"
    by (simp add: filter_id_conv)
  define rest where "rest = post @ drop k ?ys"
  have yr: "?ys = pre @ r # rest"
    using ys by (simp only: rest_def)
  have "filter (\<lambda>y. s y = 1) (pre @ r # rest) =
      filter (\<lambda>y. s y = 1) pre @ r # filter (\<lambda>y. s y = 1) rest"
    using s1 by simp
  then have "filter (\<lambda>y. s y = 1) (pre @ r # rest) = pre @ r # filter (\<lambda>y. s y = 1) rest"
    unfolding fp .
  then have "filter (\<lambda>y. s y = 1) ?ys = pre @ r # filter (\<lambda>y. s y = 1) rest"
    unfolding yr [symmetric] .
  then have fx: "filter (\<lambda>y. s y = 1) xs = pre @ r # filter (\<lambda>y. s y = 1) rest"
    by (simp only: sort_reverse_stable)
  have "sorted_wrt (\<lambda>a b. v b \<le> v a) (filter (\<lambda>y. s y = 1) xs)"
    using desc by (rule sorted_wrt_filter)
  then have vge: "\<forall>p\<in>set pre. v r \<le> v p"
    unfolding fx by (simp add: sorted_wrt_append)
  have vp: "\<forall>p\<in>set pre. v p = 1"
  proof
    fix p assume p: "p \<in> set pre"
    with vge have "1 \<le> v p" by (simp add: v1)
    moreover have "v p \<le> 1" using p pre_xs vle by blast
    ultimately show "v p = 1" by simp
  qed
  from vp sp have "list_all (\<lambda>y. v y = 1 \<and> s y = 1) pre"
    by (simp add: list_all_iff)
  with tk show ?thesis by blast
qed

lemma fold_update_map_of:
  "foldl (\<lambda>m (k, v). m(k \<mapsto> v)) m l = m ++ map_of (rev l)"
proof (induction l arbitrary: m)
  case Nil
  show ?case by simp
next
  case (Cons kv l)
  obtain k v where kv: "kv = (k, v)" by (cases kv)
  have "foldl (\<lambda>m (k, v). m(k \<mapsto> v)) m (kv # l) = foldl (\<lambda>m (k, v). m(k \<mapsto> v)) (m(k \<mapsto> v)) l"
    unfolding kv by (simp only: foldl_Cons case_prod_conv)
  also have "\<dots> = m(k \<mapsto> v) ++ map_of (rev l)"
    by (rule Cons.IH)
  also have "\<dots> = m ++ ([k \<mapsto> v] ++ map_of (rev l))"
    by (rule ext) (simp add: map_add_def split: option.splits)
  also have "[k \<mapsto> v] ++ map_of (rev l) = map_of (rev (kv # l))"
    unfolding kv by (simp only: rev.simps map_of_append) simp
  finally show ?case .
qed

lemma node_scores_lookup: "node_scores db q = map_of (rev (relevant_nodes db q))"
  by (simp add: node_scores_def fold_update_map_of)

lemma node_scores_None: "node_scores db q n = None \<longleftrightarrow> n \<notin> fst ` set (relevant_nodes db q)"
  by (simp add: node_scores_lookup map_of_eq_None_iff)

lemma node_scores_Some: "node_scores db q n = Some s \<Longrightarrow> (n, s) \<in> set (relevant_nodes db q)"
  using map_of_SomeD [of "rev (relevant_nodes db q)" n s] by (simp add: node_scores_lookup)

lemma relevant_nodes_rows:
  assumes "(n, s) \<in> set (relevant_nodes db q)"
  shows "\<exists>dn\<in>set (doc_nodes db). \<exists>e. nr_id dn = n \<and> nr_embedding dn = Some e \<and>
           s = 1 - cosine_distance e q"
proof -
  let ?rows = "sort_key (\<lambda>n. cosine_distance (the (nr_embedding n)) q)
      (filter (\<lambda>n. nr_embedding n \<noteq> None) (doc_nodes db))"
  from assms obtain dn where dn: "dn \<in> set (take 10 ?rows)"
    and n: "n = nr_id dn" and s: "s = 1 - cosine_distance (the (nr_embedding dn)) q"
    by (auto simp add: relevant_nodes_def)
  from dn have "dn \<in> set ?rows"
    by (rule in_set_takeD)
  then have "dn \<in> set (doc_nodes db)" and "nr_embedding dn \<noteq> None"
    by simp_all
  then show ?thesis
    using n s by auto
qed

lemma length_relevant_nodes: "length (relevant_nodes db q) \<le> 10"
  by (simp add: relevant_nodes_def)


lemma fused_nearest_first:
  "sorted_wrt (\<lambda>a b. r_vector_score b \<le> r_vector_score a)
     (map (fuse sc) (fetch_chunks db q min_score limit))"
  using fetch_chunks_nearest_first [of db q min_score limit]
  by (simp add: sorted_wrt_map fuse_fields(2))

text \<open>
  Claim C5, as amended.  Every result stems from a fetched chunk, with
  \<open>final_score = min (vector_score + node_boost) 1\<close>, where the boost is 0.3 times the
  routing score of the chunk's node when that node is in the routing lookup and 0
  otherwise; the lookup holds the at most ten nodes nearest to the query, each with its
  cosine similarity to the query as routing score.  No vector score exceeds 1.  A result
  with vector score 1 whose boost is not negative has final score exactly 1, no result
  has a higher score, and the results ranked before it all have vector score 1 and final
  score 1 themselves: the first result is such an exact match, and it is this result
  when no other result has vector score 1.
\<close>

theorem hybrid_search_fusion:
  assumes "hybrid_search db query q top_k min_score document_ids = Inr rs" and "r \<in> set rs"
  shows "(\<exists>h\<in>set (fetch_chunks db q min_score (nat (top_k * 2))).
           r_chunk_id r = h_chunk_id h \<and> r_vector_score r = h_vector_score h \<and>
           r_node_boost r = (case h_node_id h of None \<Rightarrow> 0
                             | Some n \<Rightarrow> (case node_scores db q n of None \<Rightarrow> 0 | Some s \<Rightarrow> s * (3 / 10))) \<and>
           r_score r = min (r_vector_score r + r_node_boost r) 1 \<and>
           r_vector_score r \<le> 1 \<and>
           (r_vector_score r = 1 \<and> 0 \<le> r_node_boost r \<longrightarrow>
              r_score r = 1 \<and> (\<forall>r'\<in>set rs. r_score r' \<le> r_score r) \<and>
              (\<exists>pre post. rs = pre @ r # post \<and>
                 list_all (\<lambda>r'. r_vector_score r' = 1 \<and> r_score r' = 1) pre) \<and>
              r_vector_score (hd rs) = 1 \<and> r_score (hd rs) = 1 \<and>
              ((\<forall>r'\<in>set rs. r_vector_score r' = 1 \<longrightarrow> r' = r) \<longrightarrow> hd rs = r))) \<and>
         node_scores db q = map_of (rev (relevant_nodes db q)) \<and>
         length (relevant_nodes db q) \<le> 10 \<and>
         (\<forall>n s. node_scores db q n = Some s \<longrightarrow>
            (\<exists>dn\<in>set (doc_nodes db). \<exists>e. nr_id dn = n \<and> nr_embedding dn = Some e \<and>
               s = 1 - cosine_distance e q)) \<and>
         (\<forall>n. node_scores db q n = None \<longleftrightarrow> n \<notin> fst ` set (relevant_nodes db q))"
proof -
  let ?hits = "fetch_chunks db q min_score (nat (top_k * 2))"
  let ?sc = "node_scores db q"
  let ?xs = "map (fuse ?sc) ?hits"
  have rs: "rs = take (nat top_k) (sort_reverse r_score ?xs)"
    using assms(1) by (rule hybrid_search_Inr)
  have sub: "set rs \<subseteq> fuse ?sc ` set ?hits"
    unfolding rs using set_take_subset [of "nat top_k" "sort_reverse r_score ?xs"]
    by simp
  then obtain h where h: "h \<in> set ?hits" and r: "r = fuse ?sc h"
    using assms(2) by blast
  have sle: "\<forall>x\<in>set ?xs. r_score x \<le> 1"
    by (auto simp add: fuse_fields(4))
  have vle: "\<forall>x\<in>set ?xs. r_vector_score x \<le> 1"
    using fetch_chunks_score_le by (auto simp add: fuse_fields(2))
  have le1: "r_score r' \<le> 1" if "r' \<in> set rs" for r'
    using that sub sle by auto
  have fs: "r_score r = min (r_vector_score r + r_node_boost r) 1"
    unfolding r by (rule fuse_fields(4))
  have v_le: "r_vector_score r \<le> 1"
    using vle h unfolding r by simp
  have exact: "r_score r = 1 \<and> (\<forall>r'\<in>set rs. r_score r' \<le> r_score r) \<and>
      (\<exists>pre post. rs = pre @ r # post \<and>
         list_all (\<lambda>r'. r_vector_score r' = 1 \<and> r_score r' = 1) pre) \<and>
      r_vector_score (hd rs) = 1 \<and> r_score (hd rs) = 1 \<and>
      ((\<forall>r'\<in>set rs. r_vector_score r' = 1 \<longrightarrow> r' = r) \<longrightarrow> hd rs = r)"
    if ex: "r_vector_score r = 1 \<and> 0 \<le> r_node_boost r"
  proof -
    have s1: "r_score r = 1"
      using fs ex by simp
    have v1: "r_vector_score r = 1"
      using ex by simp
    have mem: "r \<in> set (take (nat top_k) (sort_reverse r_score ?xs))"
      using assms(2) unfolding rs .
    from exact_match_rank [OF fused_nearest_first vle sle mem v1 s1]
    obtain pre post where dec: "rs = pre @ r # post"
      and pre: "list_all (\<lambda>r'. r_vector_score r' = 1 \<and> r_score r' = 1) pre"
      unfolding rs [symmetric] by blast
    have hd: "r_vector_score (hd rs) = 1 \<and> r_score (hd rs) = 1"
    proof (cases pre)
      case Nil
      then show ?thesis using dec v1 s1 by simp
    next
      case (Cons p pre')
      then show ?thesis using dec pre by simp
    qed
    have "hd rs \<in> set rs"
      using assms(2) by (cases rs) auto
    then have only: "hd rs = r" if "\<forall>r'\<in>set rs. r_vector_score r' = 1 \<longrightarrow> r' = r"
      using that hd by blast
    have top: "\<forall>r'\<in>set rs. r_score r' \<le> r_score r"
      using le1 s1 by simp
    from s1 top dec pre hd only show ?thesis
      by blast
  qed
  have fusion: "\<exists>h\<in>set ?hits.
      r_chunk_id r = h_chunk_id h \<and> r_vector_score r = h_vector_score h \<and>
      r_node_boost r = (case h_node_id h of None \<Rightarrow> 0
                        | Some n \<Rightarrow> (case node_scores db q n of None \<Rightarrow> 0 | Some s \<Rightarrow> s * (3 / 10))) \<and>
      r_score r = min (r_vector_score r + r_node_boost r) 1 \<and>
      r_vector_score r \<le> 1 \<and>
      (r_vector_score r = 1 \<and> 0 \<le> r_node_boost r \<longrightarrow>
         r_score r = 1 \<and> (\<forall>r'\<in>set rs. r_score r' \<le> r_score r) \<and>
         (\<exists>pre post. rs = pre @ r # post \<and>
            list_all (\<lambda>r'. r_vector_score r' = 1 \<and> r_score r' = 1) pre) \<and>
         r_vector_score (hd rs) = 1 \<and> r_score (hd rs) = 1 \<and>
         ((\<forall>r'\<in>set rs. r_vector_score r' = 1 \<longrightarrow> r' = r) \<longrightarrow> hd rs = r))"
  proof (intro bexI [of _ h] conjI)
    show "h \<in> set ?hits" by (rule h)
    show "r_chunk_id r = h_chunk_id h" unfolding r by (rule fuse_fields(1))
    show "r_vector_score r = h_vector_score h" unfolding r by (rule fuse_fields(2))
    show "r_node_boost r = (case h_node_id h of None \<Rightarrow> 0
                             | Some n \<Rightarrow> (case node_scores db q n of None \<Rightarrow> 0 | Some s \<Rightarrow> s * (3 / 10)))"
      unfolding r by (rule fuse_fields(3))
    show "r_score r = min (r_vector_score r + r_node_boost r) 1" by (rule fs)
    show "r_vector_score r \<le> 1" by (rule v_le)
    show "r_vector_score r = 1 \<and> 0 \<le> r_node_boost r \<longrightarrow>
         r_score r = 1 \<and> (\<forall>r'\<in>set rs. r_score r' \<le> r_score r) \<and>
         (\<exists>pre post. rs = pre @ r # post \<and>
            list_all (\<lambda>r'. r_vector_score r' = 1 \<and> r_score r' = 1) pre) \<and>
         r_vector_score (hd rs) = 1 \<and> r_score (hd rs) = 1 \<and>
         ((\<forall>r'\<in>set rs. r_vector_score r' = 1 \<longrightarrow> r' = r) \<longrightarrow> hd rs = r)"
      using exact by (rule impI)
  qed
  have routed: "\<forall>n s. node_scores db q n = Some s \<longrightarrow>
      (\<exists>dn\<in>set (doc_nodes db). \<exists>e. nr_id dn = n \<and> nr_embedding dn = Some e \<and>
         s = 1 - cosine_distance e q)"
    using node_scores_Some relevant_nodes_rows by blast
  have unrouted: "\<forall>n. node_scores db q n = None \<longleftrightarrow> n \<notin> fst ` set (relevant_nodes db q)"
    using node_scores_None by blast
  from fusion node_scores_lookup [of db q] length_relevant_nodes [of db q] routed unrouted
  show ?thesis
    by (intro conjI)
qed

lemma hybrid_search_bounds:
  assumes "hybrid_search db query q top_k min_score document_ids = Inr rs"
  shows "int (length rs) \<le> top_k"
    and "int (length (fetch_chunks db q min_score (nat (top_k * 2)))) \<le> top_k * 2"
    and "\<forall>h\<in>set (fetch_chunks db q min_score (nat (top_k * 2))). min_score \<le> h_vector_score h"
proof -
  have k: "0 \<le> top_k"
    using assms by (simp add: hybrid_search_def Let_def split: if_splits)
  show "int (length rs) \<le> top_k"
    using hybrid_search_Inr [OF assms] k by simp
  show "int (length (fetch_chunks db q min_score (nat (top_k * 2)))) \<le> top_k * 2"
    using k by (simp add: fetch_chunks_def)
  show "\<forall>h\<in>set (fetch_chunks db q min_score (nat (top_k * 2))). min_score \<le> h_vector_score h"
    by (auto simp add: fetch_chunks_def to_hit_def dest!: in_set_takeD)
qed

lemma hybrid_search_document_ids_unused:
  "hybrid_search db query q top_k min_score document_ids = hybrid_search db query q top_k min_score None"
  by (simp add: hybrid_search_def)

lemmas search_eval =
  hybrid_search_def node_scores_def relevant_nodes_def fetch_chunks_def joined_rows_def
  left_join_node_def to_hit_def fuse_def sort_reverse_def cosine_distance_def dot_def
  chunk_of_def node_of_def embedding_of_def Let_def

text \<open>
  Claim C5 fails as stated.  In \<open>twin_db\<close> the embeddings of chunk 10 and of chunk 11 are
  both the query vector and their node 1 is in the routing lookup, with routing score 1:
  both get the final score 1, and chunk 11 is ranked second.  In \<open>opposed_db\<close> the
  embedding of chunk 10 is the query vector and its node 1 is in the routing lookup, with
  routing score \<open>-1\<close>: the chunk gets the boost \<open>-0.3\<close> and the final score 0.7, and is
  ranked after chunk 11 with score 0.8.
\<close>

theorem fusion_exact_match_counterexample:
  "node_scores opposed_db [1, 0] 1 = Some (- 1) \<and>
   map_sum id (map (\<lambda>r. (r_chunk_id r, r_vector_score r, r_node_boost r, r_score r)))
     (hybrid_search opposed_db [] [1, 0] 5 (1 / 2) None)
     = Inr [(11, 4 / 5, 0, 4 / 5), (10, 1, - (3 / 10), 7 / 10)] \<and>
   node_scores twin_db [1, 0] 1 = Some 1 \<and>
   map_sum id (map (\<lambda>r. (r_chunk_id r, r_vector_score r, r_node_boost r, r_score r)))
     (hybrid_search twin_db [] [1, 0] 5 (1 / 2) None)
     = Inr [(10, 1, 3 / 10, 1), (11, 1, 3 / 10, 1)]"
proof -
  have a: "node_scores opposed_db [1, 0] 1 = Some (- 1) \<and>
      map_sum id (map (\<lambda>r. (r_chunk_id r, r_vector_score r, r_node_boost r, r_score r)))
        (hybrid_search opposed_db [] [1, 0] 5 (1 / 2) None)
        = Inr [(11, 4 / 5, 0, 4 / 5), (10, 1, - (3 / 10), 7 / 10)]"
    by (simp add: search_eval opposed_db_def)
  have b: "node_scores twin_db [1, 0] 1 = Some 1"
    by (simp add: search_eval twin_db_def)
  have c: "map_sum id (map (\<lambda>r. (r_chunk_id r, r_vector_score r, r_node_boost r, r_score r)))
      (hybrid_search twin_db [] [1, 0] 5 (1 / 2) None)
      = Inr [(10, 1, 3 / 10, 1), (11, 1, 3 / 10, 1)]"
    by (simp add: search_eval twin_db_def)
  from a b c show ?thesis by (intro conjI) simp_all
qed

theorem hybrid_search_fusion_witness:
  "hybrid_search tie_db [] [1, 0] 5 (1 / 2) None
     = Inr (map (fuse (node_scores tie_db [1, 0])) (fetch_chunks tie_db [1, 0] (1 / 2) (nat (5 * 2)))) \<and>
   \<lparr>r_chunk_id = 10, r_document_id = 100, r_content = [], r_node_path = [], r_node_title = Some [],
     r_score = 1, r_vector_score = 1, r_node_boost = 3 / 10\<rparr>
     \<in> set (map (fuse (node_scores tie_db [1, 0])) (fetch_chunks tie_db [1, 0] (1 / 2) (nat (5 * 2)))) \<and>
   list_all (\<lambda>r'. r_score r' \<le> 1)
     (map (fuse (node_scores tie_db [1, 0])) (fetch_chunks tie_db [1, 0] (1 / 2) (nat (5 * 2)))) \<and>
   hd (map (fuse (node_scores tie_db [1, 0])) (fetch_chunks tie_db [1, 0] (1 / 2) (nat (5 * 2))))
     = \<lparr>r_chunk_id = 10, r_document_id = 100, r_content = [], r_node_path = [], r_node_title = Some [],
        r_score = 1, r_vector_score = 1, r_node_boost = 3 / 10\<rparr>"
proof -
  let ?rs = "map (fuse (node_scores tie_db [1, 0])) (fetch_chunks tie_db [1, 0] (1 / 2) (nat (5 * 2)))"
  let ?r = "\<lparr>r_chunk_id = 10, r_document_id = 100, r_content = [], r_node_path = [], r_node_title = Some [],
     r_score = 1, r_vector_score = 1, r_node_boost = 3 / 10\<rparr>"
  have h1: "hybrid_search tie_db [] [1, 0] 5 (1 / 2) None = Inr ?rs"
    by (simp add: search_eval tie_db_def)
  have h2: "?r \<in> set ?rs"
    by (simp add: search_eval tie_db_def)
  have h3: "r_vector_score ?r = 1 \<and> 0 \<le> r_node_boost ?r"
    by simp
  have h4: "\<forall>r'\<in>set ?rs. r_vector_score r' = 1 \<longrightarrow> r' = ?r"
    by (simp add: search_eval tie_db_def)
  from hybrid_search_fusion [OF h1 h2] h3
  have top: "\<forall>r'\<in>set ?rs. r_score r' \<le> r_score ?r"
    and first: "(\<forall>r'\<in>set ?rs. r_vector_score r' = 1 \<longrightarrow> r' = ?r) \<longrightarrow> hd ?rs = ?r"
    by blast+
  from top have a: "list_all (\<lambda>r'. r_score r' \<le> 1) ?rs"
    by (simp add: list_all_iff)
  from first h4 have b: "hd ?rs = ?r"
    by (rule mp)
  from h1 h2 a b show ?thesis
    by (intro conjI)
qed

text \<open>
  Claim C8 fails as stated: in \<open>tie_db\<close> chunk 10 (chunk index 2) and chunk 11 (chunk
  index 1) both reach the final score 1; chunk 10 is nearer to the query and stays first.
\<close>

theorem tie_order_counterexample:
  "(case hybrid_search tie_db [] [1, 0] 5 (1 / 2) None of
      Inl e \<Rightarrow> False
    | Inr rs \<Rightarrow> map (\<lambda>r. (r_chunk_id r, r_score r)) rs = [(10, 1), (11, 1)] \<and>
               map (chunk_index_of tie_db) [10, 11] = [2, 1] \<and>
               \<not> ranked_with_index_ties tie_db rs)"
  by (simp add: search_eval tie_db_def ranked_with_index_ties_def chunk_index_of_def)

theorem hybrid_search_order_witness:
  "hybrid_search tie_db [] [1, 0] 5 (1 / 2) None
     = Inr (map (fuse (node_scores tie_db [1, 0])) (fetch_chunks tie_db [1, 0] (1 / 2) (nat (5 * 2)))) \<and>
   sorted_wrt (\<lambda>a b. r_score b \<le> r_score a)
     (map (fuse (node_scores tie_db [1, 0])) (fetch_chunks tie_db [1, 0] (1 / 2) (nat (5 * 2))))"
proof -
  have h1: "hybrid_search tie_db [] [1, 0] 5 (1 / 2) None
     = Inr (map (fuse (node_scores tie_db [1, 0])) (fetch_chunks tie_db [1, 0] (1 / 2) (nat (5 * 2))))"
    by (simp add: search_eval tie_db_def)
  from hybrid_search_order [OF h1] h1 show ?thesis by blast
qed

text \<open>
  Claim C6 at a call restricted to document 100: \<open>two_docs_db\<close> holds a chunk of document
  100 and a chunk of document 200, both above the threshold.  The argument
  \<open>document_ids\<close> is not used, and the chunk of document 200 is returned, in first place.
\<close>

theorem document_filter_ignored:
  "map_sum id (map (\<lambda>r. (r_chunk_id r, r_document_id r)))
     (hybrid_search two_docs_db [] [1, 0] 5 (1 / 2) (Some [100]))
     = Inr [(20, 200), (10, 100)]"
  by (simp add: search_eval two_docs_db_def)

section \<open>Properties of the indexing\<close>


















end
